theory Spec2Isabelle
  imports Main "HOL-Library.Char_ord" "HOL-Library.List_Lexorder" "HOL-Library.AList"
begin

section \<open>Errors and the random source\<close>

text \<open>
  The generator (\<^verbatim>\<open>dataset_generator.py\<close>) is a sequential Python program. Its exceptions
  are values of \<open>error\<close>: \<^verbatim>\<open>random.choice\<close> on an empty list raises IndexError,
  \<^verbatim>\<open>random.randint(a, b)\<close> with \<open>b < a\<close> raises ValueError, a missing dictionary key raises
  KeyError, \<^verbatim>\<open>open\<close> on a file system that cannot take another file raises OSError. A
  function that can raise returns \<open>error + 'a\<close>.

  The global random generator is a tape of natural numbers, read from position 0 and passed
  on shortened by every draw. The tape is arbitrary, so every outcome of the draws is the
  outcome on some tape. Draws that only feed fields left out of the model (names, dates,
  prices, device, payment method and the like) are not read from the tape.
\<close>

datatype error = IndexError | ValueError | KeyError | OSError

type_synonym tape = "nat \<Rightarrow> nat"

definition tl_tape :: "tape \<Rightarrow> tape" where
  "tl_tape t = (\<lambda>i. t (Suc i))"

definition tape_of :: "nat list \<Rightarrow> tape" where
  "tape_of xs = (\<lambda>i. if i < length xs then xs ! i else 0)"

text \<open>\<^verbatim>\<open>random.choice(xs)\<close>\<close>

definition choice :: "'a list \<Rightarrow> tape \<Rightarrow> error + ('a \<times> tape)" where
  "choice xs t =
     (if xs = [] then Inl IndexError
      else Inr (xs ! (t 0 mod length xs), tl_tape t))"

text \<open>\<^verbatim>\<open>random.randint(a, b)\<close>, both ends included\<close>

definition randint :: "int \<Rightarrow> int \<Rightarrow> tape \<Rightarrow> error + (int \<times> tape)" where
  "randint a b t =
     (if b < a then Inl ValueError
      else Inr (a + int (t 0 mod nat (b - a + 1)), tl_tape t))"

text \<open>
  \<^verbatim>\<open>random.random()\<close> is a float in [0, 1); the model reads it in hundredths, a number
  from 0 to 99, and writes the thresholds of the source (0.30, 0.20, 0.95, ...) in hundredths.
\<close>

definition random_random :: "tape \<Rightarrow> nat \<times> tape" where
  "random_random t = (t 0 mod 100, tl_tape t)"

section \<open>Products and the inventory\<close>

text \<open>
  A product is a Python dict; the fields the simulation reads or writes are kept. The list
  \<^verbatim>\<open>products\<close> and the dictionary \<^verbatim>\<open>Inventory.products\<close> hold the same objects, so the
  product list is the heap of product objects, an object is its position in the list, and
  the dictionary maps a product id to a position. The dict comprehension of
  \<^verbatim>\<open>Inventory.__init__\<close> stores the products in list order, a later one replacing an earlier
  one of the same id. Ids and positions never change, so the dictionary is computed from
  the current list wherever the source consults \<^verbatim>\<open>inv.products\<close>.
\<close>

record product =
  product_id :: string
  category_id :: string
  subcategory_id :: string
  current_stock :: int
  is_active :: bool

definition Inventory :: "product list \<Rightarrow> (string \<rightharpoonup> nat)" where
  "Inventory products =
     fold (\<lambda>(i, p) m. m(product_id p \<mapsto> i)) (enumerate 0 products) Map.empty"

definition in_stock :: "product list \<Rightarrow> string \<Rightarrow> int \<Rightarrow> bool" where
  "in_stock ps pid qty =
     (case Inventory ps pid of
        None \<Rightarrow> False
      | Some j \<Rightarrow> qty \<le> current_stock (ps ! j) \<and> is_active (ps ! j))"

text \<open>
  \<^verbatim>\<open>Inventory.reserve\<close> returns the boolean and the heap after the call. The branch
  \<open>None\<close> after a successful \<open>in_stock\<close> cannot be taken.
\<close>

definition reserve :: "product list \<Rightarrow> string \<Rightarrow> int \<Rightarrow> bool \<times> product list" where
  "reserve ps pid qty =
     (if \<not> in_stock ps pid qty then (False, ps)
      else (case Inventory ps pid of
              None \<Rightarrow> (False, ps)
            | Some j \<Rightarrow>
                (let p = ps ! j;
                     p1 = p\<lparr>current_stock := current_stock p - qty\<rparr>;
                     p2 = (if current_stock p1 \<le> 0
                           then p1\<lparr>current_stock := 0, is_active := False\<rparr>
                           else p1)
                 in (True, ps[j := p2]))))"

section \<open>Reference entities\<close>

text \<open>
  \<^verbatim>\<open>f"{n:05d}"\<close> writes a non-negative \<open>n\<close> in decimal, padded with zeros on the left to
  the width; a longer number is written in full.
\<close>

fun str_nat :: "nat \<Rightarrow> string" where
  "str_nat n =
     (if n < 10 then [''0123456789'' ! n]
      else str_nat (n div 10) @ [''0123456789'' ! (n mod 10)])"

declare str_nat.simps [simp del]

definition fmt_d :: "nat \<Rightarrow> nat \<Rightarrow> string" where
  "fmt_d width n = replicate (width - length (str_nat n)) (CHR ''0'') @ str_nat n"

record category =
  c_category_id :: string
  c_subcategories :: "string list"

text \<open>
  \<^verbatim>\<open>gen_categories\<close>, \<^verbatim>\<open>gen_products\<close> and \<^verbatim>\<open>gen_users\<close> run over \<^verbatim>\<open>range(n)\<close>, which
  is empty for \<open>n \<le> 0\<close>; the loops are recursions over the list of indices left. A
  subcategory is its id; a user is its id.
\<close>

fun gen_categories_from ::
  "nat list \<Rightarrow> int \<times> int \<Rightarrow> tape \<Rightarrow> error + (category list \<times> tape)" where
  "gen_categories_from [] subcats_per_cat t = Inr ([], t)"
| "gen_categories_from (cat_id # rest) subcats_per_cat t =
     (case randint (fst subcats_per_cat) (snd subcats_per_cat) t of
        Inl e \<Rightarrow> Inl e
      | Inr (n_sub, t1) \<Rightarrow>
          (let cat = \<lparr>c_category_id = ''cat_'' @ fmt_d 3 cat_id,
                      c_subcategories =
                        map (\<lambda>sub_id. ''sub_'' @ fmt_d 3 cat_id @ ''_'' @ fmt_d 2 sub_id)
                          [0..<nat n_sub]\<rparr>
           in case gen_categories_from rest subcats_per_cat t1 of
                Inl e \<Rightarrow> Inl e
              | Inr (cats, t2) \<Rightarrow> Inr (cat # cats, t2)))"

definition gen_categories ::
  "int \<Rightarrow> int \<times> int \<Rightarrow> tape \<Rightarrow> error + (category list \<times> tape)" where
  "gen_categories num_categories subcats_per_cat t =
     gen_categories_from [0..<nat num_categories] subcats_per_cat t"

text \<open>
  In \<^verbatim>\<open>gen_products\<close> the second \<^verbatim>\<open>random.random()\<close> is drawn only for a product drawn
  inactive (\<^verbatim>\<open>not is_active and random.random() < 0.7\<close>).
\<close>

fun gen_products_from ::
  "nat list \<Rightarrow> category list \<Rightarrow> tape \<Rightarrow> error + (product list \<times> tape)" where
  "gen_products_from [] categories t = Inr ([], t)"
| "gen_products_from (prod_id # rest) categories t =
     (case choice categories t of
        Inl e \<Rightarrow> Inl e
      | Inr (cat, t1) \<Rightarrow>
     (case choice (c_subcategories cat) t1 of
        Inl e \<Rightarrow> Inl e
      | Inr (sub, t2) \<Rightarrow>
     (case randint 10 1000 t2 of
        Inl e \<Rightarrow> Inl e
      | Inr (stock0, t3) \<Rightarrow>
          (let (r, t4) = random_random t3;
               active = (r < 95);
               (stock, t5) =
                 (if \<not> active
                  then (let (r2, t') = random_random t4
                        in (if r2 < 70 then 0 else stock0, t'))
                  else (stock0, t4));
               p = \<lparr>product_id = ''prod_'' @ fmt_d 5 prod_id,
                    category_id = c_category_id cat,
                    subcategory_id = sub,
                    current_stock = stock,
                    is_active = (active \<and> stock > 0)\<rparr>
           in case gen_products_from rest categories t5 of
                Inl e \<Rightarrow> Inl e
              | Inr (products, t6) \<Rightarrow> Inr (p # products, t6)))))"

definition gen_products ::
  "category list \<Rightarrow> int \<Rightarrow> tape \<Rightarrow> error + (product list \<times> tape)" where
  "gen_products categories num_products t =
     gen_products_from [0..<nat num_products] categories t"

definition gen_users :: "int \<Rightarrow> string list" where
  "gen_users num_users = map (\<lambda>user_id. ''user_'' @ fmt_d 6 user_id) [0..<nat num_users]"

section \<open>Sessions\<close>

datatype page_type = Home | Search | Category_listing | Product_detail | Cart | Checkout

datatype conversion = Converted | Abandoned_cart | Browsing

text \<open>
  A page view keeps the slot's offset from the session start (its timestamp is the start
  plus the offset). A cart is a Python dict from product id to an entry; dicts keep
  insertion order, so it is an association list, and the entry is its quantity.
\<close>

record page_view =
  pv_offset :: int
  pv_page_type :: page_type
  pv_product_id :: "string option"
  pv_category_id :: "string option"
  pv_view_duration :: int

record line_item =
  li_product_id :: string
  li_quantity :: int

record transaction =
  tx_session_id :: "string option"
  tx_user_id :: string
  tx_items :: "line_item list"

record session =
  s_session_id :: string
  s_user_id :: string
  s_duration_seconds :: int
  s_viewed_products :: "string list"
  s_page_views :: "page_view list"
  s_cart_contents :: "(string \<times> int) list"
  s_conversion_status :: conversion

fun rand_hex :: "nat \<Rightarrow> tape \<Rightarrow> string \<times> tape" where
  "rand_hex 0 t = ([], t)"
| "rand_hex (Suc n) t =
     (let c = ''0123456789abcdef'' ! (t 0 mod 16);
          (cs, t') = rand_hex n (tl_tape t)
      in (c # cs, t'))"

text \<open>\<^verbatim>\<open>weighted_choice\<close>: the weights are in hundredths, as the draw is.\<close>

fun weighted_scan :: "('a \<times> nat) list \<Rightarrow> nat \<Rightarrow> nat \<Rightarrow> 'a option" where
  "weighted_scan [] r tot = None"
| "weighted_scan ((v, w) # choices) r tot =
     (if r \<le> tot + w then Some v else weighted_scan choices r (tot + w))"

definition weighted_choice :: "('a \<times> nat) list \<Rightarrow> tape \<Rightarrow> error + ('a \<times> tape)" where
  "weighted_choice choices t =
     (let (r, t1) = random_random t
      in case weighted_scan choices r 0 of
           Some v \<Rightarrow> Inr (v, t1)
         | None \<Rightarrow> (if choices = [] then Inl IndexError else Inr (fst (last choices), t1)))"

fun draw_cuts :: "nat \<Rightarrow> int \<Rightarrow> tape \<Rightarrow> error + (int list \<times> tape)" where
  "draw_cuts 0 session_duration t = Inr ([], t)"
| "draw_cuts (Suc k) session_duration t =
     (case randint 1 (session_duration - 1) t of
        Inl e \<Rightarrow> Inl e
      | Inr (c, t1) \<Rightarrow>
          (case draw_cuts k session_duration t1 of
             Inl e \<Rightarrow> Inl e
           | Inr (cs, t2) \<Rightarrow> Inr (c # cs, t2)))"

definition make_page_flow :: "int \<Rightarrow> tape \<Rightarrow> error + (int list \<times> tape)" where
  "make_page_flow session_duration t =
     (case randint 4 14 t of
        Inl e \<Rightarrow> Inl e
      | Inr (n_views, t1) \<Rightarrow>
          (case draw_cuts (nat (n_views - 1)) session_duration t1 of
             Inl e \<Rightarrow> Inl e
           | Inr (cuts, t2) \<Rightarrow>
               Inr (sorted_list_of_set ({0, session_duration} \<union> set cuts), t2)))"

definition choose_page_type ::
  "nat \<Rightarrow> page_view list \<Rightarrow> tape \<Rightarrow> error + (page_type \<times> tape)" where
  "choose_page_type i prev t =
     (if i = 0 then Inr (Home, t)
      else if prev \<noteq> [] \<and> pv_page_type (last prev) = Cart then
        weighted_choice [(Checkout, 35), (Product_detail, 40), (Search, 25)] t
      else if prev \<noteq> [] \<and> pv_page_type (last prev) = Checkout then
        weighted_choice [(Checkout, 20), (Cart, 30), (Product_detail, 50)] t
      else
        weighted_choice
          [(Search, 20), (Category_listing, 25), (Product_detail, 40), (Cart, 15)] t)"

text \<open>
  The product of a product_detail page: the loop \<^verbatim>\<open>for _ in range(5)\<close> with its
  \<^verbatim>\<open>break\<close>, then the draw made when the loop chose nothing.
\<close>

fun pick_tries :: "nat \<Rightarrow> product list \<Rightarrow> tape \<Rightarrow> error + (product option \<times> tape)" where
  "pick_tries 0 products t = Inr (None, t)"
| "pick_tries (Suc n) products t =
     (case choice products t of
        Inl e \<Rightarrow> Inl e
      | Inr (cand, t1) \<Rightarrow>
          (if is_active cand \<and> current_stock cand > 0 then Inr (Some cand, t1)
           else pick_tries n products t1))"

definition pick_detail_product :: "product list \<Rightarrow> tape \<Rightarrow> error + (product \<times> tape)" where
  "pick_detail_product products t =
     (case pick_tries 5 products t of
        Inl e \<Rightarrow> Inl e
      | Inr (None, t1) \<Rightarrow> choice products t1
      | Inr (Some chosen, t1) \<Rightarrow> Inr (chosen, t1))"

definition add_to_cart ::
  "product list \<Rightarrow> string \<Rightarrow> (string \<times> int) list \<Rightarrow> tape
     \<Rightarrow> error + ((string \<times> int) list \<times> tape)" where
  "add_to_cart ps pid cart_contents t =
     (let cart1 = (if map_of cart_contents pid = None
                   then AList.update pid 0 cart_contents else cart_contents)
      in case Inventory ps pid of
           None \<Rightarrow> Inl KeyError
         | Some j \<Rightarrow>
             (case map_of cart1 pid of
                None \<Rightarrow> Inl KeyError
              | Some q \<Rightarrow>
                  (let remaining = current_stock (ps ! j) - q
                   in if remaining > 0 then
                        (case randint 1 (min 3 remaining) t of
                           Inl e \<Rightarrow> Inl e
                         | Inr (add_qty, t1) \<Rightarrow>
                             Inr (AList.update pid (q + add_qty) cart1, t1))
                      else Inr (cart1, t))))"

record sim =
  sim_page_views :: "page_view list"
  sim_viewed :: "string set"
  sim_cart :: "(string \<times> int) list"

definition page_step ::
  "product list \<Rightarrow> category list \<Rightarrow> int list \<Rightarrow> nat \<Rightarrow> sim \<Rightarrow> tape
     \<Rightarrow> error + (sim \<times> tape)" where
  "page_step ps categories slots i st t =
     (let view_duration = slots ! (i + 1) - slots ! i
      in case choose_page_type i (sim_page_views st) t of
           Inl e \<Rightarrow> Inl e
         | Inr (ptype, t1) \<Rightarrow>
             (case (if ptype = Category_listing then
                      (case choice categories t1 of
                         Inl e \<Rightarrow> Inl e
                       | Inr (cat, t2) \<Rightarrow> Inr (None, Some (c_category_id cat), st, t2))
                    else if ptype = Product_detail then
                      (case pick_detail_product ps t1 of
                         Inl e \<Rightarrow> Inl e
                       | Inr (chosen, t2) \<Rightarrow>
                           (let pid = product_id chosen;
                                st1 = st\<lparr>sim_viewed := insert pid (sim_viewed st)\<rparr>;
                                (r, t3) = random_random t2
                            in if r < 30 then
                                 (case add_to_cart ps pid (sim_cart st1) t3 of
                                    Inl e \<Rightarrow> Inl e
                                  | Inr (cart, t4) \<Rightarrow>
                                      Inr (Some pid, Some (category_id chosen),
                                           st1\<lparr>sim_cart := cart\<rparr>, t4))
                               else Inr (Some pid, Some (category_id chosen), st1, t3)))
                    else Inr (None, None, st, t1)) of
                Inl e \<Rightarrow> Inl e
              | Inr (pv_pid, pv_cid, st2, t5) \<Rightarrow>
                  Inr (st2\<lparr>sim_page_views := sim_page_views st2 @
                             [\<lparr>pv_offset = slots ! i, pv_page_type = ptype,
                               pv_product_id = pv_pid, pv_category_id = pv_cid,
                               pv_view_duration = view_duration\<rparr>]\<rparr>, t5)))"

fun page_loop ::
  "product list \<Rightarrow> category list \<Rightarrow> int list \<Rightarrow> nat list \<Rightarrow> sim \<Rightarrow> tape
     \<Rightarrow> error + (sim \<times> tape)" where
  "page_loop ps categories slots [] st t = Inr (st, t)"
| "page_loop ps categories slots (i # rest) st t =
     (case page_step ps categories slots i st t of
        Inl e \<Rightarrow> Inl e
      | Inr (st', t') \<Rightarrow> page_loop ps categories slots rest st' t')"

text \<open>The loop over the cart that builds the transaction's lines (reserving stock).\<close>

fun reserve_cart ::
  "(string \<times> int) list \<Rightarrow> line_item list \<Rightarrow> product list
     \<Rightarrow> line_item list \<times> product list" where
  "reserve_cart [] items ps = (items, ps)"
| "reserve_cart ((pid, qty) # rest) items ps =
     (if qty \<le> 0 then reserve_cart rest items ps
      else (let (ok, ps') = reserve ps pid qty
            in if ok
               then reserve_cart rest
                      (items @ [\<lparr>li_product_id = pid, li_quantity = qty\<rparr>]) ps'
               else reserve_cart rest items ps'))"

definition session_record ::
  "string \<Rightarrow> product list \<Rightarrow> category list \<Rightarrow> tape
     \<Rightarrow> error + (session \<times> transaction option \<times> product list \<times> tape)" where
  "session_record user ps categories t =
     (let (hex, t1) = rand_hex 10 t;
          session_id = ''sess_'' @ hex
      in case randint 30 3600 t1 of
           Inl e \<Rightarrow> Inl e
         | Inr (duration, t2) \<Rightarrow>
        (case make_page_flow duration t2 of
           Inl e \<Rightarrow> Inl e
         | Inr (slots, t3) \<Rightarrow>
        (case page_loop ps categories slots [0..<length slots - 1]
                \<lparr>sim_page_views = [], sim_viewed = {}, sim_cart = []\<rparr> t3 of
           Inl e \<Rightarrow> Inl e
         | Inr (st, t4) \<Rightarrow>
             (let did_checkout = list_ex (\<lambda>pv. pv_page_type pv = Checkout) (sim_page_views st);
                  has_cart = list_ex (\<lambda>(k, q). q > 0) (sim_cart st);
                  convert_prob = (if did_checkout \<and> has_cart then 45
                                  else if has_cart then 20 else (5::nat));
                  (r, t5) = random_random t4;
                  converted = (r < convert_prob \<and> has_cart);
                  session_doc =
                    \<lparr>s_session_id = session_id,
                     s_user_id = user,
                     s_duration_seconds = duration,
                     s_viewed_products = sorted_list_of_set (sim_viewed st),
                     s_page_views = sim_page_views st,
                     s_cart_contents = filter (\<lambda>(k, q). q > 0) (sim_cart st),
                     s_conversion_status =
                       (if converted then Converted
                        else if has_cart then Abandoned_cart else Browsing)\<rparr>
              in if converted then
                   (let (items, ps') = reserve_cart (s_cart_contents session_doc) [] ps
                    in if items \<noteq> [] then
                         Inr (session_doc,
                              Some \<lparr>tx_session_id = Some session_id, tx_user_id = user,
                                    tx_items = items\<rparr>,
                              ps', t5)
                       else
                         Inr (session_doc\<lparr>s_conversion_status := Abandoned_cart\<rparr>,
                              None, ps', t5))
                 else Inr (session_doc, None, ps, t5)))))"

section \<open>Orphan transactions\<close>

fun orphan_picks ::
  "nat \<Rightarrow> nat \<Rightarrow> line_item list \<Rightarrow> product list \<Rightarrow> tape
     \<Rightarrow> error + (line_item list \<times> product list \<times> tape)" where
  "orphan_picks 0 n_items items ps t = Inr (items, ps, t)"
| "orphan_picks (Suc k) n_items items ps t =
     (if length items \<ge> n_items then Inr (items, ps, t)
      else (case choice ps t of
              Inl e \<Rightarrow> Inl e
            | Inr (p, t1) \<Rightarrow>
                (if \<not> is_active p \<or> current_stock p \<le> 0
                 then orphan_picks k n_items items ps t1
                 else (case randint 1 3 t1 of
                         Inl e \<Rightarrow> Inl e
                       | Inr (qty, t2) \<Rightarrow>
                           (let pid = product_id p;
                                (ok, ps') = reserve ps pid qty
                            in if ok
                               then orphan_picks k n_items
                                      (items @ [\<lparr>li_product_id = pid, li_quantity = qty\<rparr>])
                                      ps' t2
                               else orphan_picks k n_items items ps' t2)))))"

definition gen_orphan_transaction ::
  "string \<Rightarrow> product list \<Rightarrow> tape
     \<Rightarrow> error + (transaction option \<times> product list \<times> tape)" where
  "gen_orphan_transaction user ps t =
     (case randint 1 3 t of
        Inl e \<Rightarrow> Inl e
      | Inr (n_items, t1) \<Rightarrow>
          (case orphan_picks (nat (n_items * 3)) (nat n_items) [] ps t1 of
             Inl e \<Rightarrow> Inl e
           | Inr (items, ps', t2) \<Rightarrow>
               (if items = [] then Inr (None, ps', t2)
                else Inr (Some \<lparr>tx_session_id = None, tx_user_id = user, tx_items = items\<rparr>,
                          ps', t2))))"

section \<open>The streaming writer\<close>

text \<open>
  \<^verbatim>\<open>write_json_array\<close> writes to a file and returns the count. The file is the string of
  what was written to it, the source of records is the list of what the iterator yields,
  and \<^verbatim>\<open>json.dumps\<close> is the parameter \<open>dumps\<close>. The loop carries \<^verbatim>\<open>first\<close>, the file and
  \<^verbatim>\<open>count\<close>. Opening the file is modelled where \<^verbatim>\<open>write_json_array\<close> is called, by
  \<open>create_file\<close> below.
\<close>

fun write_items :: "('a \<Rightarrow> string) \<Rightarrow> 'a list \<Rightarrow> bool \<Rightarrow> string \<Rightarrow> int \<Rightarrow> string \<times> int" where
  "write_items dumps [] first f count = (f, count)"
| "write_items dumps (item # rest) first f count =
     write_items dumps rest False
       ((if \<not> first then f @ '',\<newline>'' else f) @ dumps item) (count + 1)"

definition write_json_array :: "('a \<Rightarrow> string) \<Rightarrow> 'a list \<Rightarrow> string \<times> int" where
  "write_json_array dumps items_iter =
     (let (f, count) = write_items dumps items_iter True ''[\<newline>'' 0
      in (f @ ''\<newline>]\<newline>'', count))"

text \<open>
  The JSON grammar of an array (RFC 8259), over the texts of its elements: an opening
  bracket, the element texts separated by commas, a closing bracket, with optional
  whitespace around every token. \<open>json_array vs s\<close> says that \<open>s\<close> is the text of the array
  whose element texts are \<open>vs\<close>, in this order.
\<close>

definition json_ws :: "string \<Rightarrow> bool" where
  "json_ws s = list_all (\<lambda>c. c = CHR '' '' \<or> c = CHR ''\<newline>'' \<or> c = CHR 0x09 \<or> c = CHR 0x0D) s"

inductive json_elements :: "string list \<Rightarrow> string \<Rightarrow> bool" where
  last_element: "json_ws a \<Longrightarrow> json_ws b \<Longrightarrow> json_elements [v] (a @ v @ b)"
| more_elements:
    "json_ws a \<Longrightarrow> json_ws b \<Longrightarrow> json_elements vs rest \<Longrightarrow>
     json_elements (v # vs) (a @ v @ b @ '','' @ rest)"

inductive json_array :: "string list \<Rightarrow> string \<Rightarrow> bool" where
  empty_array: "json_ws a \<Longrightarrow> json_ws b \<Longrightarrow> json_array [] (''['' @ a @ '']'' @ b)"
| elements_array:
    "json_elements vs body \<Longrightarrow> json_ws b \<Longrightarrow> json_array vs (''['' @ body @ '']'' @ b)"

section \<open>The orchestrator\<close>

record config =
  num_users :: int
  num_products :: int
  num_categories :: int
  num_transactions :: int
  num_sessions :: int
  sessions_chunk_size :: int
  subcats_min :: int
  subcats_max :: int

text \<open>
  The file system is finite: \<open>create_file room\<close> is \<^verbatim>\<open>open(path, "w")\<close> on a path that
  does not exist yet, where \<open>room\<close> is the number of files the file system can still
  take. With no room left the call raises \<^verbatim>\<open>OSError\<close>; otherwise the file exists and the
  room left is one less. Opening a path that exists already takes no room. The output
  directory is empty at the start of a run, so every file that a run opens for the first
  time is a new one. No other failure of the file system is modelled.
\<close>

definition create_file :: "nat \<Rightarrow> error + nat" where
  "create_file room = (if room = 0 then Inl OSError else Inr (room - 1))"

text \<open>
  The state of \<^verbatim>\<open>main\<close> during the two loops: the product heap, the tape, the room left
  in the file system, the counters, the session files written so far (one list of
  sessions per chunk file, in the order of their numbers) and the transactions written to
  \<^verbatim>\<open>transactions.json\<close>. \<open>products_initial\<close> is the first \<^verbatim>\<open>products.json\<close>; the last one
  is \<open>run_products\<close> of the final state.
\<close>

record run =
  products_initial :: "product list"
  run_products :: "product list"
  run_tape :: tape
  files_left :: nat
  tx_written :: int
  sess_written :: int
  chunk_idx :: nat
  session_files :: "session list list"
  transactions :: "transaction list"

text \<open>
  The generator \<^verbatim>\<open>iter_sessions_for_chunk\<close>: it returns the sessions it yields and the
  transactions it appends to \<^verbatim>\<open>tx_buffer\<close>, with the heap, \<^verbatim>\<open>tx_written\<close> and the tape
  after the chunk.
\<close>

fun iter_sessions_for_chunk ::
  "nat \<Rightarrow> string list \<Rightarrow> category list \<Rightarrow> int \<Rightarrow> product list \<Rightarrow> int \<Rightarrow> tape
     \<Rightarrow> error + (session list \<times> transaction list \<times> product list \<times> int \<times> tape)" where
  "iter_sessions_for_chunk 0 users categories tx_target ps txw t = Inr ([], [], ps, txw, t)"
| "iter_sessions_for_chunk (Suc n) users categories tx_target ps txw t =
     (case choice users t of
        Inl e \<Rightarrow> Inl e
      | Inr (user, t1) \<Rightarrow>
     (case session_record user ps categories t1 of
        Inl e \<Rightarrow> Inl e
      | Inr (sess_doc, tx_doc, ps1, t2) \<Rightarrow>
          (let (buf, txw1) =
                 (case tx_doc of
                    Some tx \<Rightarrow> if txw < tx_target then ([tx], txw + 1) else ([], txw)
                  | None \<Rightarrow> ([], txw))
           in case iter_sessions_for_chunk n users categories tx_target ps1 txw1 t2 of
                Inl e \<Rightarrow> Inl e
              | Inr (sessions, tx_buffer, ps2, txw2, t3) \<Rightarrow>
                  Inr (sess_doc # sessions, buf @ tx_buffer, ps2, txw2, t3))))"

text \<open>
  One turn of the chunk loop of \<^verbatim>\<open>main\<close>: \<^verbatim>\<open>write_json_array\<close> creates the file
  \<^verbatim>\<open>sessions_N.json\<close> of the chunk, then draws the sessions of the chunk from the
  generator, and the transactions gathered in \<^verbatim>\<open>tx_buffer\<close> are flushed to the
  transaction stream.
\<close>

definition chunk_step ::
  "(session \<Rightarrow> string) \<Rightarrow> config \<Rightarrow> string list \<Rightarrow> category list \<Rightarrow> run \<Rightarrow> error + run" where
  "chunk_step dumps args users categories st =
     (let remaining = num_sessions args - sess_written st;
          this_chunk = min (sessions_chunk_size args) remaining
      in case create_file (files_left st) of
           Inl e \<Rightarrow> Inl e
         | Inr room \<Rightarrow>
        (case iter_sessions_for_chunk (nat this_chunk) users categories
                (num_transactions args) (run_products st) (tx_written st) (run_tape st) of
           Inl e \<Rightarrow> Inl e
         | Inr (sessions, tx_buffer, ps, txw, t) \<Rightarrow>
             (let wrote = snd (write_json_array dumps sessions)
              in Inr (st\<lparr>run_products := ps, run_tape := t, files_left := room,
                         tx_written := txw,
                         sess_written := sess_written st + wrote,
                         chunk_idx := chunk_idx st + 1,
                         session_files := session_files st @ [sessions],
                         transactions := transactions st @ tx_buffer\<rparr>))))"

text \<open>
  One turn of the orphan loop of \<^verbatim>\<open>main\<close>: a user is drawn, and the transaction that
  \<^verbatim>\<open>gen_orphan_transaction\<close> returns, if it returns one, is written and counted.
\<close>

definition orphan_step :: "string list \<Rightarrow> run \<Rightarrow> error + run" where
  "orphan_step users st =
     (case choice users (run_tape st) of
        Inl e \<Rightarrow> Inl e
      | Inr (user, t1) \<Rightarrow>
          (case gen_orphan_transaction user (run_products st) t1 of
             Inl e \<Rightarrow> Inl e
           | Inr (tx_doc, ps, t2) \<Rightarrow>
               (case tx_doc of
                  None \<Rightarrow> Inr (st\<lparr>run_products := ps, run_tape := t2\<rparr>)
                | Some tx \<Rightarrow>
                    Inr (st\<lparr>run_products := ps, run_tape := t2,
                            transactions := transactions st @ [tx],
                            tx_written := tx_written st + 1\<rparr>))))"

text \<open>
  The two \<^verbatim>\<open>while\<close> loops of \<^verbatim>\<open>main\<close>: not returning is \<open>None\<close>, an exception is
  \<open>Some (Inl e)\<close>, and leaving the loop is \<open>Some (Inr st)\<close>.
\<close>

partial_function (option) sessions_loop ::
  "(session \<Rightarrow> string) \<Rightarrow> config \<Rightarrow> string list \<Rightarrow> category list \<Rightarrow> run
     \<Rightarrow> (error + run) option" where
  "sessions_loop dumps args users categories st =
     (if sess_written st < num_sessions args then
        (case chunk_step dumps args users categories st of
           Inl e \<Rightarrow> Some (Inl e)
         | Inr st1 \<Rightarrow> sessions_loop dumps args users categories st1)
      else Some (Inr st))"

partial_function (option) orphan_loop ::
  "config \<Rightarrow> string list \<Rightarrow> run \<Rightarrow> (error + run) option" where
  "orphan_loop args users st =
     (if tx_written st < num_transactions args then
        (case orphan_step users st of
           Inl e \<Rightarrow> Some (Inl e)
         | Inr st1 \<Rightarrow> orphan_loop args users st1)
      else Some (Inr st))"

text \<open>
  What \<^verbatim>\<open>main\<close> does before its loops: it generates the categories, the products and the
  users, creates \<^verbatim>\<open>categories.json\<close>, \<^verbatim>\<open>products.json\<close>, \<^verbatim>\<open>users.json\<close> and
  \<^verbatim>\<open>transactions.json\<close>, and sets the counters to 0. \<open>room\<close> is the room in the file
  system at the start.
\<close>

definition prepare :: "config \<Rightarrow> nat \<Rightarrow> tape \<Rightarrow> error + (category list \<times> string list \<times> run)" where
  "prepare args room t =
     (case gen_categories (num_categories args) (subcats_min args, subcats_max args) t of
        Inl e \<Rightarrow> Inl e
      | Inr (categories, t1) \<Rightarrow>
     (case create_file room of
        Inl e \<Rightarrow> Inl e
      | Inr room1 \<Rightarrow>
     (case gen_products categories (num_products args) t1 of
        Inl e \<Rightarrow> Inl e
      | Inr (products, t2) \<Rightarrow>
     (case create_file room1 of
        Inl e \<Rightarrow> Inl e
      | Inr room2 \<Rightarrow>
     (let users = gen_users (num_users args)
      in case create_file room2 of
           Inl e \<Rightarrow> Inl e
         | Inr room3 \<Rightarrow>
        (case create_file room3 of
           Inl e \<Rightarrow> Inl e
         | Inr room4 \<Rightarrow>
             Inr (categories, users,
                  \<lparr>products_initial = products, run_products = products, run_tape = t2,
                   files_left = room4, tx_written = 0, sess_written = 0, chunk_idx = 0,
                   session_files = [], transactions = []\<rparr>)))))))"

text \<open>
  The run: the preparation, the chunk loop, then the orphan loop. The last
  \<^verbatim>\<open>products.json\<close> is written over the first one, which takes no room.
\<close>

definition main ::
  "(session \<Rightarrow> string) \<Rightarrow> config \<Rightarrow> nat \<Rightarrow> tape \<Rightarrow> (error + run) option" where
  "main dumps args room t =
     (case prepare args room t of
        Inl e \<Rightarrow> Some (Inl e)
      | Inr (categories, users, st0) \<Rightarrow>
          (case sessions_loop dumps args users categories st0 of
             None \<Rightarrow> None
           | Some (Inl e) \<Rightarrow> Some (Inl e)
           | Some (Inr st1) \<Rightarrow> orphan_loop args users st1))"

text \<open>
  The states a run goes through at the head of its loops: \<open>run_reaches \<dots> st st'\<close> says
  that the run, being in state \<open>st\<close>, is in state \<open>st'\<close> some turns of the loops later.
  A turn of the chunk loop is taken while the session target is unmet, a turn of the
  orphan loop once it is met and while the transaction target is unmet.
\<close>

inductive run_reaches ::
  "(session \<Rightarrow> string) \<Rightarrow> config \<Rightarrow> string list \<Rightarrow> category list \<Rightarrow> run \<Rightarrow> run \<Rightarrow> bool" where
  here: "run_reaches dumps args users categories st st"
| chunk_turn:
    "run_reaches dumps args users categories st st1 \<Longrightarrow>
     sess_written st1 < num_sessions args \<Longrightarrow>
     chunk_step dumps args users categories st1 = Inr st2 \<Longrightarrow>
     run_reaches dumps args users categories st st2"
| orphan_turn:
    "run_reaches dumps args users categories st st1 \<Longrightarrow>
     \<not> sess_written st1 < num_sessions args \<Longrightarrow>
     tx_written st1 < num_transactions args \<Longrightarrow>
     orphan_step users st1 = Inr st2 \<Longrightarrow>
     run_reaches dumps args users categories st st2"


section \<open>Measures used by the properties\<close>

text \<open>The quantity on the lines of \<open>items\<close> that name product \<open>pid\<close>, and the same over
  the lines of a list of transactions.\<close>

definition lines_qty :: "string \<Rightarrow> line_item list \<Rightarrow> int" where
  "lines_qty pid items = sum_list (map li_quantity (filter (\<lambda>l. li_product_id l = pid) items))"

definition committed_qty :: "string \<Rightarrow> transaction list \<Rightarrow> int" where
  "committed_qty pid txs = lines_qty pid (concat (map tx_items txs))"

text \<open>The stock the ledger holds for a product id (0 for an id it does not know).\<close>

definition stock_of :: "product list \<Rightarrow> string \<Rightarrow> int" where
  "stock_of ps pid = (case Inventory ps pid of None \<Rightarrow> 0 | Some j \<Rightarrow> current_stock (ps ! j))"

text \<open>
  The heaps that calls of \<open>reserve\<close> lead to: \<open>reserve_steps ps qs\<close> says that \<open>qs\<close> is \<open>ps\<close>
  after some calls of \<open>reserve\<close>, with any arguments.
\<close>

inductive reserve_steps :: "product list \<Rightarrow> product list \<Rightarrow> bool" where
  no_step: "reserve_steps ps ps"
| reserve_step: "reserve_steps ps qs \<Longrightarrow> reserve_steps ps (snd (reserve qs pid qty))"

text \<open>The \<open>k\<close>-th product drawn by \<^verbatim>\<open>random.choice(products)\<close> from tape \<open>t\<close>, and the
  tape after \<open>k\<close> draws.\<close>

definition nth_draw :: "product list \<Rightarrow> tape \<Rightarrow> nat \<Rightarrow> product" where
  "nth_draw ps t k = ps ! (t k mod length ps)"

definition drop_tape :: "nat \<Rightarrow> tape \<Rightarrow> tape" where
  "drop_tape k t = (\<lambda>i. t (i + k))"

text \<open>The product ids recorded on the product_detail views of a list of page views.\<close>

definition detail_ids :: "page_view list \<Rightarrow> string set" where
  "detail_ids pvs =
     {pid. \<exists>pv \<in> set pvs. pv_page_type pv = Product_detail \<and> pv_product_id pv = Some pid}"

text \<open>No product of the heap is both active and in stock.\<close>

definition exhausted :: "product list \<Rightarrow> bool" where
  "exhausted ps = (\<forall>p \<in> set ps. \<not> is_active p \<or> current_stock p \<le> 0)"

text \<open>
  The session ids of the sessions of a list that carry the status \<open>Converted\<close>, in the
  form a transaction stores them, and the summary of a finished run used in the examples:
  the id and status of every session written, and the session id of every transaction
  written.
\<close>

definition converted_ids :: "session list \<Rightarrow> string option list" where
  "converted_ids sessions =
     map (\<lambda>s. Some (s_session_id s)) (filter (\<lambda>s. s_conversion_status s = Converted) sessions)"

definition session_linked :: "transaction list \<Rightarrow> transaction list" where
  "session_linked txs = filter (\<lambda>tx. tx_session_id tx \<noteq> None) txs"

definition run_summary :: "run \<Rightarrow> (string \<times> conversion) list \<times> string option list" where
  "run_summary st =
     (map (\<lambda>s. (s_session_id s, s_conversion_status s)) (concat (session_files st)),
      map tx_session_id (transactions st))"

text \<open>
  The state of the transaction stream during the session loop: the counter is the number
  of transactions written, all of them carry a session id, and their session ids are
  those of the first \<open>num_transactions\<close> converted sessions written so far.
\<close>

definition linked_inv :: "config \<Rightarrow> run \<Rightarrow> bool" where
  "linked_inv args st \<longleftrightarrow>
     tx_written st = int (length (transactions st)) \<and>
     session_linked (transactions st) = transactions st \<and>
     map tx_session_id (transactions st) =
       take (nat (num_transactions args)) (converted_ids (concat (session_files st)))"

text \<open>
  The lines of the transaction that \<^verbatim>\<open>session_record\<close> or \<^verbatim>\<open>gen_orphan_transaction\<close>
  returns (none when it returns \<^verbatim>\<open>None\<close>).
\<close>

definition tx_lines :: "transaction option \<Rightarrow> line_item list" where
  "tx_lines tx = (case tx of None \<Rightarrow> [] | Some x \<Rightarrow> tx_items x)"

text \<open>
  The effect on the stock of a piece of code that takes the heap from \<open>ps\<close> to \<open>ps'\<close>
  while the lines gathered grow from \<open>items\<close> to \<open>items'\<close>: the product ids stay, what
  leaves the stock of a product is what the new lines carry for it, no line is taken
  back, and no stock becomes negative.
\<close>

definition stock_step ::
  "product list \<Rightarrow> line_item list \<Rightarrow> product list \<Rightarrow> line_item list \<Rightarrow> bool" where
  "stock_step ps items ps' items' \<longleftrightarrow>
     map product_id ps' = map product_id ps \<and>
     (\<forall>q. stock_of ps' q + lines_qty q items' = stock_of ps q + lines_qty q items) \<and>
     (\<forall>q. lines_qty q items \<le> lines_qty q items') \<and>
     (\<forall>q. 0 \<le> stock_of ps q \<longrightarrow> 0 \<le> stock_of ps' q)"

text \<open>
  The state of the stock during a run that started with the products \<open>ps0\<close>: for every
  product id, the quantity on the transaction lines written so far and the stock left do
  not exceed the initial stock, and no stock is negative.
\<close>

definition conserved :: "product list \<Rightarrow> run \<Rightarrow> bool" where
  "conserved ps0 st \<longleftrightarrow>
     products_initial st = ps0 \<and>
     map product_id (run_products st) = map product_id ps0 \<and>
     (\<forall>q. 0 \<le> stock_of (run_products st) q) \<and>
     (\<forall>q. committed_qty q (transactions st) + stock_of (run_products st) q \<le> stock_of ps0 q)"

text \<open>The number that a string of decimal digits denotes.\<close>

definition dec_val :: "string \<Rightarrow> nat" where
  "dec_val s = foldl (\<lambda>a c. 10 * a + (of_char c - 48)) 0 s"

text \<open>A product without stock is inactive.\<close>

definition deactivated :: "product list \<Rightarrow> bool" where
  "deactivated ps = (\<forall>p \<in> set ps. current_stock p \<le> 0 \<longrightarrow> \<not> is_active p)"

declare sessions_loop.simps [code] orphan_loop.simps [code]

section \<open>Example inputs\<close>

text \<open>
  A catalogue of one category with one subcategory and the product that \<open>gen_products\<close>
  makes from it on the tape of zeros: ten units in stock, active. The configuration asks
  for one of everything.
\<close>

definition example_category :: category where
  "example_category = \<lparr>c_category_id = ''cat_000'', c_subcategories = [''sub_000_00'']\<rparr>"

definition example_product :: product where
  "example_product =
     \<lparr>product_id = ''prod_00000'', category_id = ''cat_000'',
      subcategory_id = ''sub_000_00'', current_stock = 10, is_active = True\<rparr>"

definition example_config :: config where
  "example_config =
     \<lparr>num_users = 1, num_products = 1, num_categories = 1, num_transactions = 1,
      num_sessions = 1, sessions_chunk_size = 1, subcats_min = 1, subcats_max = 1\<rparr>"

text \<open>A state of \<^verbatim>\<open>main\<close> at the head of its loops, for the example product and the
  tape of zeros, with room for ten files.\<close>

definition example_run :: run where
  "example_run =
     \<lparr>products_initial = [example_product], run_products = [example_product],
      run_tape = tape_of [], files_left = 10, tx_written = 0, sess_written = 0, chunk_idx = 0,
      session_files = [], transactions = []\<rparr>"

section \<open>Evaluation on concrete inputs\<close>

lemma tape_of_simps:
  "tape_of (x # xs) 0 = x" "tape_of [] 0 = 0"
  "tl_tape (tape_of (x # xs)) = tape_of xs" "tl_tape (tape_of []) = tape_of []"
  by (auto simp: tape_of_def tl_tape_def fun_eq_iff)

lemma Inr_pair_projr: "map_sum id fst r = Inr y \<Longrightarrow> r = Inr (y, snd (projr r))"
  by (cases r) auto

lemma Some_Inr_projr: "map_option isl m = Some False \<Longrightarrow> m = Some (Inr (projr (the m)))"
  by (cases m) (auto simp: isl_def)

section \<open>The inventory dictionary\<close>

lemma Inventory_Nil: "Inventory [] = Map.empty"
  by (simp add: Inventory_def)

lemma Inventory_snoc: "Inventory (ps @ [p]) = (Inventory ps)(product_id p \<mapsto> length ps)"
  by (simp add: Inventory_def enumerate_append_eq)

lemma Inventory_SomeD:
  "Inventory ps pid = Some j \<Longrightarrow> j < length ps \<and> product_id (ps ! j) = pid"
proof (induction ps arbitrary: j rule: rev_induct)
  case Nil
  then show ?case by (simp add: Inventory_Nil)
next
  case (snoc p ps)
  show ?case
  proof (cases "product_id p = pid")
    case True
    with snoc.prems have "j = length ps" by (simp add: Inventory_snoc)
    with True show ?thesis by simp
  next
    case False
    with snoc.prems have "Inventory ps pid = Some j" by (simp add: Inventory_snoc)
    from snoc.IH [OF this] show ?thesis by (simp add: nth_append)
  qed
qed

lemma Inventory_ids: "map product_id ps = map product_id qs \<Longrightarrow> Inventory ps = Inventory qs"
proof (induction ps arbitrary: qs rule: rev_induct)
  case Nil
  then show ?case by simp
next
  case (snoc p ps)
  then obtain q qs' where qs: "qs = qs' @ [q]"
    by (cases qs rule: rev_cases) auto
  with snoc.prems have "map product_id ps = map product_id qs'" "product_id p = product_id q"
    by simp_all
  moreover from this have "length ps = length qs'" by (metis length_map)
  ultimately show ?case using snoc.IH [of qs'] qs by (simp add: Inventory_snoc)
qed

lemma Inventory_dom: "dom (Inventory ps) = product_id ` set ps"
proof (induction ps rule: rev_induct)
  case Nil
  show ?case by (simp add: Inventory_Nil)
next
  case (snoc p ps)
  have "dom (Inventory (ps @ [p])) = insert (product_id p) (dom (Inventory ps))"
    by (simp only: Inventory_snoc dom_fun_upd option.distinct if_False)
  with snoc show ?case by simp
qed

section \<open>Reservation\<close>

lemma in_stock_iff:
  "in_stock ps pid qty \<longleftrightarrow>
     (\<exists>j. Inventory ps pid = Some j \<and> is_active (ps ! j) \<and> qty \<le> current_stock (ps ! j))"
  by (auto simp: in_stock_def split: option.splits)

lemma reserve_fail: "\<not> in_stock ps pid qty \<Longrightarrow> reserve ps pid qty = (False, ps)"
  by (simp add: reserve_def)

lemma reserve_ok:
  assumes "Inventory ps pid = Some j" "is_active (ps ! j)" "qty \<le> current_stock (ps ! j)"
  shows "reserve ps pid qty =
           (True, ps[j := (ps ! j)\<lparr>current_stock := current_stock (ps ! j) - qty,
                                  is_active := (current_stock (ps ! j) - qty \<noteq> 0)\<rparr>])"
proof -
  from assms have ok: "in_stock ps pid qty" by (auto simp: in_stock_iff)
  show ?thesis
  proof (cases "current_stock (ps ! j) - qty \<le> 0")
    case True
    with assms(3) have "current_stock (ps ! j) - qty = 0" by simp
    with ok assms(1) show ?thesis by (simp add: reserve_def Let_def)
  next
    case False
    then have "current_stock (ps ! j) - qty \<noteq> 0" by simp
    moreover have "(ps ! j)\<lparr>current_stock := current_stock (ps ! j) - qty\<rparr> =
                   (ps ! j)\<lparr>current_stock := current_stock (ps ! j) - qty, is_active := True\<rparr>"
      using assms(2) by simp
    ultimately show ?thesis using ok assms(1) False by (simp add: reserve_def Let_def)
  qed
qed

lemma reserve_cases:
  obtains (fail) "reserve ps pid qty = (False, ps)"
  | (ok) j where "Inventory ps pid = Some j" "j < length ps" "product_id (ps ! j) = pid"
      "is_active (ps ! j)" "qty \<le> current_stock (ps ! j)"
      "reserve ps pid qty =
         (True, ps[j := (ps ! j)\<lparr>current_stock := current_stock (ps ! j) - qty,
                                is_active := (current_stock (ps ! j) - qty \<noteq> 0)\<rparr>])"
proof (cases "in_stock ps pid qty")
  case False
  then show ?thesis using fail reserve_fail by blast
next
  case True
  then obtain j where j: "Inventory ps pid = Some j" "is_active (ps ! j)"
    "qty \<le> current_stock (ps ! j)" by (auto simp: in_stock_iff)
  from Inventory_SomeD [OF j(1)] reserve_ok [OF j] j show ?thesis using ok by blast
qed

lemma reserve_ids: "map product_id (snd (reserve ps pid qty)) = map product_id ps"
  by (cases rule: reserve_cases [of ps pid qty]) (simp_all add: map_update list_update_same_conv)

lemma reserve_length: "length (snd (reserve ps pid qty)) = length ps"
  by (metis length_map reserve_ids)

lemma Inventory_reserve: "Inventory (snd (reserve ps pid qty)) = Inventory ps"
  by (rule Inventory_ids) (rule reserve_ids)

lemma reserve_stock_of:
  "stock_of (snd (reserve ps pid qty)) q =
     stock_of ps q - (if fst (reserve ps pid qty) \<and> q = pid then qty else 0)"
proof (cases rule: reserve_cases [of ps pid qty])
  case fail
  then show ?thesis by simp
next
  case (ok j)
  have inv: "Inventory (snd (reserve ps pid qty)) = Inventory ps" by (rule Inventory_reserve)
  show ?thesis
  proof (cases "Inventory ps q")
    case None
    with inv show ?thesis using ok by (auto simp: stock_of_def)
  next
    case (Some k)
    from Inventory_SomeD [OF Some] have k: "k < length ps" "product_id (ps ! k) = q" by simp_all
    show ?thesis
    proof (cases "q = pid")
      case True
      with Some ok(1) have "k = j" by simp
      with True Some inv ok show ?thesis by (simp add: stock_of_def)
    next
      case False
      with k ok(3) have "k \<noteq> j" by auto
      with False Some inv ok k show ?thesis by (simp add: stock_of_def)
    qed
  qed
qed

lemma reserve_True_le: "fst (reserve ps pid qty) \<Longrightarrow> qty \<le> stock_of ps pid"
  by (cases rule: reserve_cases [of ps pid qty]) (simp_all add: stock_of_def)

lemma reserve_deactivated: "deactivated ps \<Longrightarrow> deactivated (snd (reserve ps pid qty))"
proof (cases rule: reserve_cases [of ps pid qty])
  case fail
  then show "deactivated ps \<Longrightarrow> ?thesis" by simp
next
  case (ok j)
  assume d: "deactivated ps"
  show ?thesis
    unfolding deactivated_def
  proof (intro ballI impI)
    fix p assume p: "p \<in> set (snd (reserve ps pid qty))" "current_stock p \<le> 0"
    from p(1) ok(6) have "p \<in> insert ((ps ! j)\<lparr>current_stock := current_stock (ps ! j) - qty,
                                is_active := (current_stock (ps ! j) - qty \<noteq> 0)\<rparr>) (set ps)"
      using set_update_subset_insert by fastforce
    then show "\<not> is_active p" using d p(2) ok(5) by (auto simp: deactivated_def)
  qed
qed

lemma reserve_inactive:
  "i < length ps \<Longrightarrow> \<not> is_active (ps ! i) \<Longrightarrow> \<not> is_active (snd (reserve ps pid qty) ! i)"
  by (cases rule: reserve_cases [of ps pid qty]) (auto simp: nth_list_update)

lemma reserve_stock_zero:
  "i < length ps \<Longrightarrow> \<not> is_active (ps ! i) \<Longrightarrow>
     current_stock (snd (reserve ps pid qty) ! i) = current_stock (ps ! i)"
  by (cases rule: reserve_cases [of ps pid qty]) (auto simp: nth_list_update)

lemma reserve_steps_length: "reserve_steps ps qs \<Longrightarrow> length qs = length ps"
  by (induction rule: reserve_steps.induct) (simp_all add: reserve_length)

lemma reserve_steps_trans: "reserve_steps qs rs \<Longrightarrow> reserve_steps ps qs \<Longrightarrow> reserve_steps ps rs"
  by (induction rule: reserve_steps.induct) (auto intro: reserve_steps.intros)

lemma reserve_steps_deactivated: "reserve_steps ps qs \<Longrightarrow> deactivated ps \<Longrightarrow> deactivated qs"
  by (induction rule: reserve_steps.induct) (simp_all add: reserve_deactivated)

lemma reserve_steps_inactive:
  "reserve_steps ps qs \<Longrightarrow> i < length ps \<Longrightarrow> \<not> is_active (ps ! i) \<Longrightarrow>
     \<not> is_active (qs ! i) \<and> current_stock (qs ! i) = current_stock (ps ! i)"
proof (induction rule: reserve_steps.induct)
  case (no_step ps)
  then show ?case by simp
next
  case (reserve_step ps qs pid qty)
  then have "i < length qs" by (simp add: reserve_steps_length)
  with reserve_step show ?case by (simp add: reserve_inactive reserve_stock_zero)
qed

lemma gen_products_from_deactivated:
  "gen_products_from idxs categories t = Inr (ps, t') \<Longrightarrow>
     deactivated ps \<and> (\<forall>p \<in> set ps. 0 \<le> current_stock p) \<and>
     map product_id ps = map (\<lambda>i. ''prod_'' @ fmt_d 5 i) idxs"
proof (induction idxs arbitrary: ps t)
  case Nil
  then show ?case by (simp add: deactivated_def)
next
  case (Cons i idxs)
  then show ?case
    by (auto simp: deactivated_def randint_def random_random_def Let_def
             split: sum.splits prod.splits if_splits)
qed

section \<open>The streaming writer\<close>

lemma write_items_rest:
  "write_items dumps xs False f c =
     (f @ concat (map (\<lambda>x. '',\<newline>'' @ dumps x) xs), c + int (length xs))"
  by (induction xs arbitrary: f c) simp_all

lemma write_json_array_Nil: "write_json_array dumps [] = (''[\<newline>\<newline>]\<newline>'', 0)"
  by (simp add: write_json_array_def)

lemma write_json_array_Cons:
  "write_json_array dumps (x # xs) =
     (''['' @ (''\<newline>'' @ dumps x @ concat (map (\<lambda>y. '',\<newline>'' @ dumps y) xs) @ ''\<newline>'')
        @ '']'' @ ''\<newline>'',
      1 + int (length xs))"
  by (simp add: write_json_array_def write_items_rest)

lemma json_ws_simps: "json_ws []" "json_ws ''\<newline>''" "json_ws ''\<newline>\<newline>''"
  by (simp_all add: json_ws_def)

lemma json_elements_lines:
  "json_ws a \<Longrightarrow>
   json_elements (map dumps (x # xs))
     (a @ dumps x @ concat (map (\<lambda>y. '',\<newline>'' @ dumps y) xs) @ ''\<newline>'')"
proof (induction xs arbitrary: x a)
  case Nil
  then show ?case using last_element [of a "''\<newline>''" "dumps x"] by (simp add: json_ws_simps)
next
  case (Cons y ys)
  have "json_elements (map dumps (y # ys))
          (''\<newline>'' @ dumps y @ concat (map (\<lambda>y. '',\<newline>'' @ dumps y) ys) @ ''\<newline>'')"
    by (rule Cons.IH) (rule json_ws_simps)
  from more_elements [OF Cons.prems json_ws_simps(1) this, of "dumps x"]
  show ?case by simp
qed

section \<open>Draws of products\<close>

lemma drop_tape_simps:
  "drop_tape 0 t = t" "drop_tape k (tl_tape t) = drop_tape (Suc k) t"
  "tl_tape t = drop_tape (Suc 0) t"
  by (simp_all add: drop_tape_def tl_tape_def)

lemma nth_draw_tl: "nth_draw ps (tl_tape t) k = nth_draw ps t (Suc k)"
  by (simp add: nth_draw_def tl_tape_def)

lemma choice_draw: "ps \<noteq> [] \<Longrightarrow> choice ps t = Inr (nth_draw ps t 0, tl_tape t)"
  by (simp add: choice_def nth_draw_def)

lemma pick_tries_draws:
  assumes "ps \<noteq> []"
  shows "(\<exists>k<n. pick_tries n ps t = Inr (Some (nth_draw ps t k), drop_tape (Suc k) t) \<and>
            is_active (nth_draw ps t k) \<and> 0 < current_stock (nth_draw ps t k) \<and>
            (\<forall>j<k. \<not> (is_active (nth_draw ps t j) \<and> 0 < current_stock (nth_draw ps t j)))) \<or>
         (pick_tries n ps t = Inr (None, drop_tape n t) \<and>
            (\<forall>j<n. \<not> (is_active (nth_draw ps t j) \<and> 0 < current_stock (nth_draw ps t j))))"
proof (induction n arbitrary: t)
  case 0
  show ?case by (simp add: drop_tape_simps(1))
next
  case (Suc n)
  show ?case
  proof (cases "is_active (nth_draw ps t 0) \<and> 0 < current_stock (nth_draw ps t 0)")
    case True
    then have "pick_tries (Suc n) ps t = Inr (Some (nth_draw ps t 0), drop_tape (Suc 0) t)"
      using assms by (simp add: choice_draw drop_tape_simps(3))
    with True show ?thesis by auto
  next
    case False
    then have eq: "pick_tries (Suc n) ps t = pick_tries n ps (tl_tape t)"
      using assms by (auto simp: choice_draw)
    from Suc.IH [of "tl_tape t"] show ?thesis
    proof
      assume "\<exists>k<n. pick_tries n ps (tl_tape t) =
                 Inr (Some (nth_draw ps (tl_tape t) k), drop_tape (Suc k) (tl_tape t)) \<and>
               is_active (nth_draw ps (tl_tape t) k) \<and> 0 < current_stock (nth_draw ps (tl_tape t) k) \<and>
               (\<forall>j<k. \<not> (is_active (nth_draw ps (tl_tape t) j) \<and>
                          0 < current_stock (nth_draw ps (tl_tape t) j)))"
      then obtain k where k: "k < n"
        "pick_tries n ps (tl_tape t) = Inr (Some (nth_draw ps t (Suc k)), drop_tape (Suc (Suc k)) t)"
        "is_active (nth_draw ps t (Suc k))" "0 < current_stock (nth_draw ps t (Suc k))"
        "\<forall>j<k. \<not> (is_active (nth_draw ps t (Suc j)) \<and> 0 < current_stock (nth_draw ps t (Suc j)))"
        by (auto simp: nth_draw_tl drop_tape_simps(2))
      have "\<forall>j<Suc k. \<not> (is_active (nth_draw ps t j) \<and> 0 < current_stock (nth_draw ps t j))"
        using False k(5) by (auto simp: less_Suc_eq_0_disj)
      with k eq show ?thesis by (intro disjI1 exI [of _ "Suc k"]) simp
    next
      assume "pick_tries n ps (tl_tape t) = Inr (None, drop_tape n (tl_tape t)) \<and>
              (\<forall>j<n. \<not> (is_active (nth_draw ps (tl_tape t) j) \<and>
                         0 < current_stock (nth_draw ps (tl_tape t) j)))"
      then have n: "pick_tries n ps (tl_tape t) = Inr (None, drop_tape (Suc n) t)"
        "\<forall>j<n. \<not> (is_active (nth_draw ps t (Suc j)) \<and> 0 < current_stock (nth_draw ps t (Suc j)))"
        by (auto simp: nth_draw_tl drop_tape_simps(2))
      have "\<forall>j<Suc n. \<not> (is_active (nth_draw ps t j) \<and> 0 < current_stock (nth_draw ps t j))"
        using False n(2) by (auto simp: less_Suc_eq_0_disj)
      with n eq show ?thesis by simp
    qed
  qed
qed

section \<open>Sessions\<close>

lemma session_recordE:
  assumes "session_record user ps categories t = Inr (s, tx, ps', t')"
  obtains hex t1 slots t3 st t4 its where
    "rand_hex 10 t = (hex, t1)"
    "s_session_id s = ''sess_'' @ hex"
    "page_loop ps categories slots [0..<length slots - 1]
       \<lparr>sim_page_views = [], sim_viewed = {}, sim_cart = []\<rparr> t3 = Inr (st, t4)"
    "s_viewed_products s = sorted_list_of_set (sim_viewed st)"
    "s_page_views s = sim_page_views st"
    "s_cart_contents s = filter (\<lambda>(k, q). q > 0) (sim_cart st)"
    "s_conversion_status s = Converted \<longleftrightarrow> tx \<noteq> None"
    "tx = None \<longrightarrow> ps' = ps \<or> reserve_cart (s_cart_contents s) [] ps = ([], ps')"
    "tx \<noteq> None \<longrightarrow>
       tx = Some \<lparr>tx_session_id = Some (s_session_id s), tx_user_id = user, tx_items = its\<rparr> \<and>
       its \<noteq> [] \<and> reserve_cart (s_cart_contents s) [] ps = (its, ps')"
  using assms
  unfolding session_record_def Let_def
  by (auto split: sum.splits prod.splits if_splits)

lemma detail_ids_simps:
  "detail_ids [] = {}" "detail_ids (pvs @ [pv]) = detail_ids pvs \<union> detail_ids [pv]"
  "finite (detail_ids [pv])"
proof -
  have "detail_ids [pv] \<subseteq> {the (pv_product_id pv)}" by (auto simp: detail_ids_def)
  then show "finite (detail_ids [pv])" by (rule finite_subset) simp
qed (auto simp: detail_ids_def)

lemma page_step_viewed:
  assumes "page_step ps categories slots i st t = Inr (st', t')"
  shows "\<exists>pv. sim_page_views st' = sim_page_views st @ [pv] \<and>
           sim_viewed st' = sim_viewed st \<union> detail_ids [pv]"
  using assms
  by (auto simp: page_step_def Let_def detail_ids_def
           split: sum.splits if_splits prod.splits)

lemma page_loop_viewed:
  assumes "page_loop ps categories slots idxs st t = Inr (st', t')"
    and "finite (sim_viewed st)" and "sim_viewed st = detail_ids (sim_page_views st)"
  shows "finite (sim_viewed st') \<and> sim_viewed st' = detail_ids (sim_page_views st')"
  using assms
proof (induction idxs arbitrary: st t)
  case Nil
  then show ?case by simp
next
  case (Cons i idxs)
  from Cons.prems(1) obtain st1 t1 where
    step: "page_step ps categories slots i st t = Inr (st1, t1)" and
    rest: "page_loop ps categories slots idxs st1 t1 = Inr (st', t')"
    by (auto split: sum.splits)
  from page_step_viewed [OF step] obtain pv where
    pv: "sim_page_views st1 = sim_page_views st @ [pv]"
        "sim_viewed st1 = sim_viewed st \<union> detail_ids [pv]" by blast
  with Cons.prems(2,3) have "finite (sim_viewed st1)"
    "sim_viewed st1 = detail_ids (sim_page_views st1)"
    by (simp_all add: detail_ids_simps)
  with Cons.IH [OF rest] show ?case by blast
qed

section \<open>Orphan transactions\<close>

lemma choice_Inr: "xs \<noteq> [] \<Longrightarrow> \<exists>x t'. choice xs t = Inr (x, t') \<and> x \<in> set xs"
  by (simp add: choice_def)

lemma orphan_picks_exhausted:
  assumes "exhausted ps" "ps \<noteq> []"
  shows "\<exists>t'. orphan_picks k n_items [] ps t = Inr ([], ps, t')"
proof (induction k arbitrary: t)
  case 0
  show ?case by simp
next
  case (Suc k)
  show ?case
  proof (cases "n_items = 0")
    case True
    then show ?thesis by simp
  next
    case False
    from choice_Inr [OF assms(2), of t] obtain p t1 where
      c: "choice ps t = Inr (p, t1)" "p \<in> set ps" by blast
    with assms(1) have "\<not> is_active p \<or> current_stock p \<le> 0" by (simp add: exhausted_def)
    with c False Suc [of t1] show ?thesis by auto
  qed
qed

lemma gen_orphan_exhausted:
  assumes "exhausted ps" "ps \<noteq> []"
  shows "\<exists>t'. gen_orphan_transaction user ps t = Inr (None, ps, t')"
proof -
  obtain n t1 where r: "randint 1 3 t = Inr (n, t1)" by (simp add: randint_def)
  from orphan_picks_exhausted [OF assms, of "nat (n * 3)" "nat n" t1] obtain t2 where
    "orphan_picks (nat (n * 3)) (nat n) [] ps t1 = Inr ([], ps, t2)" by blast
  with r show ?thesis by (simp add: gen_orphan_transaction_def)
qed

lemma write_json_array_count: "snd (write_json_array dumps xs) = int (length xs)"
  by (cases xs) (simp_all add: write_json_array_Nil write_json_array_Cons)

section \<open>Sessions and their transactions\<close>

lemma session_record_status:
  assumes "session_record user ps categories t = Inr (s, tx, ps', t')"
  shows "(s_conversion_status s = Converted \<longleftrightarrow> tx \<noteq> None) \<and>
         (\<forall>x. tx = Some x \<longrightarrow> tx_session_id x = Some (s_session_id s) \<and> tx_items x \<noteq> [])"
  by (rule session_recordE [OF assms]) auto

lemma converted_ids_simps:
  "converted_ids [] = []"
  "converted_ids (s # ss) =
     (if s_conversion_status s = Converted then Some (s_session_id s) # converted_ids ss
      else converted_ids ss)"
  "converted_ids (ss @ ss') = converted_ids ss @ converted_ids ss'"
  by (simp_all add: converted_ids_def)

lemma iter_sessions_ids:
  assumes "iter_sessions_for_chunk n users categories tx_target ps txw t =
             Inr (sessions, tx_buffer, ps', txw', t')"
  shows "map tx_session_id tx_buffer = take (nat (tx_target - txw)) (converted_ids sessions) \<and>
         txw' = txw + int (length tx_buffer)"
  using assms
proof (induction n arbitrary: ps txw t sessions tx_buffer)
  case 0
  then show ?case by (simp add: converted_ids_simps)
next
  case (Suc n)
  from Suc.prems obtain user t1 where c: "choice users t = Inr (user, t1)"
    by (auto split: sum.splits)
  with Suc.prems obtain s tx ps1 t2 where
    sr: "session_record user ps categories t1 = Inr (s, tx, ps1, t2)"
    by (auto split: sum.splits)
  define b where "b = (case tx of Some x \<Rightarrow> if txw < tx_target then [x] else [] | None \<Rightarrow> [])"
  define w where "w = txw + int (length b)"
  have bw: "(case tx of Some x \<Rightarrow> if txw < tx_target then ([x], txw + 1) else ([], txw)
             | None \<Rightarrow> ([], txw)) = (b, w)"
    by (simp add: b_def w_def split: option.splits)
  from Suc.prems c sr bw obtain ss bf where
    rest: "iter_sessions_for_chunk n users categories tx_target ps1 w t2 =
             Inr (ss, bf, ps', txw', t')" and
    eq: "sessions = s # ss" "tx_buffer = b @ bf"
    by (auto split: sum.splits)
  from Suc.IH [OF rest] have
    ih: "map tx_session_id bf = take (nat (tx_target - w)) (converted_ids ss)"
        "txw' = w + int (length bf)" by simp_all
  note st = session_record_status [OF sr]
  show ?case
  proof (cases tx)
    case None
    with st have "s_conversion_status s \<noteq> Converted" by simp
    with None ih eq show ?thesis by (simp add: b_def w_def converted_ids_simps)
  next
    case (Some x)
    with st have x: "s_conversion_status s = Converted" "tx_session_id x = Some (s_session_id s)"
      by simp_all
    show ?thesis
    proof (cases "txw < tx_target")
      case True
      then have "nat (tx_target - txw) = Suc (nat (tx_target - (txw + 1)))" by simp
      with True Some x ih eq show ?thesis by (simp add: b_def w_def converted_ids_simps)
    next
      case False
      then have "nat (tx_target - txw) = 0" by simp
      with False Some x ih eq show ?thesis by (simp add: b_def w_def converted_ids_simps)
    qed
  qed
qed

lemma gen_orphan_no_session:
  "gen_orphan_transaction user ps t = Inr (Some tx, ps', t') \<Longrightarrow> tx_session_id tx = None"
  by (auto simp: gen_orphan_transaction_def split: sum.splits if_splits)

lemma take_ids_append:
  assumes "xs = take n cs" "ys = take (nat (int n - int (length xs))) ds"
  shows "xs @ ys = take n (cs @ ds)"
proof (cases "n \<le> length cs")
  case True
  with assms have "length xs = n" by simp
  with assms True show ?thesis by simp
next
  case False
  with assms have "xs = cs" by simp
  with assms False show ?thesis by (simp add: nat_diff_distrib')
qed

section \<open>Product ids\<close>

lemma dec_val_snoc: "dec_val (s @ [c]) = 10 * dec_val s + (of_char c - 48)"
  by (simp add: dec_val_def)

lemma digit_char_val: "d < 10 \<Longrightarrow> of_char (''0123456789'' ! d) = (48::nat) + d"
proof -
  assume "d < 10"
  then have "d \<in> {0, 1, 2, 3, 4, 5, 6, 7, 8, 9}" by auto
  then show ?thesis by auto
qed

lemma dec_val_str_nat: "dec_val (str_nat n) = n"
proof (induction n rule: str_nat.induct)
  case (1 n)
  show ?case
  proof (cases "n < 10")
    case True
    then show ?thesis
      by (subst str_nat.simps) (simp add: dec_val_def digit_char_val)
  next
    case False
    then have "dec_val (str_nat n) = 10 * dec_val (str_nat (n div 10)) + n mod 10"
      by (subst str_nat.simps) (simp add: dec_val_snoc digit_char_val)
    with False 1 show ?thesis by simp
  qed
qed

lemma dec_val_zeros: "dec_val (replicate k (CHR ''0'') @ s) = dec_val s"
proof -
  have "foldl (\<lambda>a c. 10 * a + (of_char c - 48)) 0 (replicate k (CHR ''0'')) = (0::nat)"
    by (induction k) simp_all
  then show ?thesis by (simp add: dec_val_def)
qed

lemma dec_val_fmt_d: "dec_val (fmt_d w n) = n"
  by (simp add: fmt_d_def dec_val_zeros dec_val_str_nat)

lemma fmt_d_inj: "fmt_d w m = fmt_d w n \<Longrightarrow> m = n"
  by (metis dec_val_fmt_d)

lemma distinct_product_ids: "distinct (map (\<lambda>i. ''prod_'' @ fmt_d 5 i) [0..<n])"
  by (auto simp: distinct_map inj_on_def dest: fmt_d_inj)

lemma gen_products_ids:
  assumes "gen_products categories n t = Inr (ps, t')"
  shows "distinct (map product_id ps) \<and> (\<forall>p \<in> set ps. 0 \<le> current_stock p)"
  using gen_products_from_deactivated [of "[0..<nat n]" categories t ps t'] assms
        distinct_product_ids [of "nat n"]
  by (simp add: gen_products_def)

lemma Inventory_distinct:
  assumes "distinct (map product_id ps)" "j < length ps"
  shows "Inventory ps (product_id (ps ! j)) = Some j"
proof -
  from assms(2) have "product_id (ps ! j) \<in> dom (Inventory ps)"
    by (simp add: Inventory_dom)
  then obtain k where k: "Inventory ps (product_id (ps ! j)) = Some k" by blast
  from Inventory_SomeD [OF k] have "k < length ps" "product_id (ps ! k) = product_id (ps ! j)"
    by simp_all
  with assms have "k = j"
    by (metis distinct_conv_nth length_map nth_map)
  with k show ?thesis by simp
qed

lemma stock_of_distinct:
  assumes "distinct (map product_id ps)" "p \<in> set ps"
  shows "stock_of ps (product_id p) = current_stock p"
proof -
  from assms(2) obtain j where "j < length ps" "ps ! j = p" by (auto simp: in_set_conv_nth)
  with Inventory_distinct [OF assms(1), of j] show ?thesis by (simp add: stock_of_def)
qed

lemma stock_of_nonneg:
  assumes "\<forall>p \<in> set ps. 0 \<le> current_stock p"
  shows "0 \<le> stock_of ps q"
proof (cases "Inventory ps q")
  case None
  then show ?thesis by (simp add: stock_of_def)
next
  case (Some j)
  from Inventory_SomeD [OF Some] assms show ?thesis by (simp add: stock_of_def Some)
qed

section \<open>The turns of the loops\<close>

lemma chunk_stepE:
  assumes "chunk_step dumps args users categories st = Inr st'"
  obtains sessions tx_buffer ps txw t where
    "0 < files_left st"
    "iter_sessions_for_chunk
       (nat (min (sessions_chunk_size args) (num_sessions args - sess_written st)))
       users categories (num_transactions args) (run_products st) (tx_written st) (run_tape st) =
     Inr (sessions, tx_buffer, ps, txw, t)"
    "st' = st\<lparr>run_products := ps, run_tape := t, files_left := files_left st - 1,
               tx_written := txw,
               sess_written := sess_written st + int (length sessions),
               chunk_idx := chunk_idx st + 1,
               session_files := session_files st @ [sessions],
               transactions := transactions st @ tx_buffer\<rparr>"
  using assms unfolding chunk_step_def create_file_def Let_def
  by (auto simp: write_json_array_count split: sum.splits if_splits)

lemma orphan_stepE:
  assumes "orphan_step users st = Inr st'"
  obtains (skipped) user t1 ps t2 where
      "choice users (run_tape st) = Inr (user, t1)"
      "gen_orphan_transaction user (run_products st) t1 = Inr (None, ps, t2)"
      "st' = st\<lparr>run_products := ps, run_tape := t2\<rparr>"
  | (wrote) user t1 tx ps t2 where
      "choice users (run_tape st) = Inr (user, t1)"
      "gen_orphan_transaction user (run_products st) t1 = Inr (Some tx, ps, t2)"
      "st' = st\<lparr>run_products := ps, run_tape := t2,
                 transactions := transactions st @ [tx],
                 tx_written := tx_written st + 1\<rparr>"
  using assms unfolding orphan_step_def
  by (auto split: sum.splits option.splits)

lemma run_reaches_trans:
  "run_reaches dumps args users categories st1 st2 \<Longrightarrow>
   run_reaches dumps args users categories st st1 \<Longrightarrow>
   run_reaches dumps args users categories st st2"
  by (induction rule: run_reaches.induct) (auto intro: run_reaches.intros)

lemma sessions_loop_done:
  "\<not> sess_written st < num_sessions args \<Longrightarrow>
     sessions_loop dumps args users categories st = Some (Inr st)"
  by (subst sessions_loop.simps) simp


lemma sessions_loop_reaches:
  assumes "sessions_loop dumps args users categories st = Some (Inr st')"
  shows "run_reaches dumps args users categories st st' \<and>
         \<not> sess_written st' < num_sessions args"
proof -
  have "\<forall>s'. (Inr st' :: error + run) = Inr s' \<longrightarrow>
          (\<forall>s0. run_reaches dumps args users categories s0 st \<longrightarrow>
                run_reaches dumps args users categories s0 s') \<and>
          \<not> sess_written s' < num_sessions args"
  proof (rule sessions_loop.raw_induct
      [where P = "\<lambda>d a u c s y. \<forall>s'. y = Inr s' \<longrightarrow>
                    (\<forall>s0. run_reaches d a u c s0 s \<longrightarrow> run_reaches d a u c s0 s') \<and>
                    \<not> sess_written s' < num_sessions a", OF _ assms], goal_cases)
    case (1 f d a u c s y)
    show ?case
    proof (intro allI impI)
      fix s'
      assume y: "y = Inr s'"
      show "(\<forall>s0. run_reaches d a u c s0 s \<longrightarrow> run_reaches d a u c s0 s') \<and>
            \<not> sess_written s' < num_sessions a"
      proof (cases "sess_written s < num_sessions a")
        case False
        with 1(2) y have "s' = s" by simp
        with False show ?thesis by simp
      next
        case True
        with 1(2) y obtain s1 where
          c: "chunk_step d a u c s = Inr s1" and f: "f d a u c s1 = Some (Inr s')"
          by (auto split: sum.splits)
        from 1(1) [OF f] have
          ih: "\<forall>s0. run_reaches d a u c s0 s1 \<longrightarrow> run_reaches d a u c s0 s'"
              "\<not> sess_written s' < num_sessions a"
          by simp_all
        have "run_reaches d a u c s0 s'" if "run_reaches d a u c s0 s" for s0
          using ih(1) chunk_turn [OF that True c] by simp
        with ih(2) show ?thesis by simp
      qed
    qed
  qed
  then show ?thesis by (simp add: run_reaches.here)
qed

lemma orphan_step_sess_written:
  "orphan_step users st = Inr st' \<Longrightarrow> sess_written st' = sess_written st"
  by (erule orphan_stepE) simp_all

lemma orphan_loop_reaches:
  assumes "orphan_loop args users st = Some (Inr st')"
    and "\<not> sess_written st < num_sessions args"
  shows "run_reaches dumps args users categories st st'"
proof -
  have "\<forall>s'. (Inr st' :: error + run) = Inr s' \<longrightarrow>
          \<not> sess_written st < num_sessions args \<longrightarrow>
          (\<forall>d c s0. run_reaches d args users c s0 st \<longrightarrow> run_reaches d args users c s0 s')"
  proof (rule orphan_loop.raw_induct
      [where P = "\<lambda>a u s y. \<forall>s'. y = Inr s' \<longrightarrow> \<not> sess_written s < num_sessions a \<longrightarrow>
                    (\<forall>d c s0. run_reaches d a u c s0 s \<longrightarrow> run_reaches d a u c s0 s')",
       OF _ assms(1)], goal_cases)
    case (1 f a u s y)
    show ?case
    proof (intro allI impI)
      fix s' d c s0
      assume y: "y = Inr s'" and fin: "\<not> sess_written s < num_sessions a"
        and r: "run_reaches d a u c s0 s"
      show "run_reaches d a u c s0 s'"
      proof (cases "tx_written s < num_transactions a")
        case False
        with 1(2) y have "s' = s" by simp
        with r show ?thesis by simp
      next
        case True
        with 1(2) y obtain s1 where
          o: "orphan_step u s = Inr s1" and f: "f a u s1 = Some (Inr s')"
          by (auto split: sum.splits)
        from orphan_step_sess_written [OF o] fin have
          d1: "\<not> sess_written s1 < num_sessions a" by simp
        from orphan_turn [OF r fin True o] have "run_reaches d a u c s0 s1" .
        with 1(1) [OF f] d1 show ?thesis by simp
      qed
    qed
  qed
  with assms(2) show ?thesis by (simp add: run_reaches.here)
qed

section \<open>The orphan loop\<close>

lemma orphan_loop_never_returns:
  assumes "orphan_loop args users st = Some y"
  shows "\<not> (tx_written st < num_transactions args \<and> users \<noteq> [] \<and>
            run_products st \<noteq> [] \<and> exhausted (run_products st))"
proof (rule orphan_loop.raw_induct
    [where P = "\<lambda>args users st y. \<not> (tx_written st < num_transactions args \<and> users \<noteq> [] \<and>
            run_products st \<noteq> [] \<and> exhausted (run_products st))", OF _ assms], goal_cases)
  case (1 f args users st y)
  show ?case
  proof
    assume pre: "tx_written st < num_transactions args \<and> users \<noteq> [] \<and>
            run_products st \<noteq> [] \<and> exhausted (run_products st)"
    then obtain user t1 where c: "choice users (run_tape st) = Inr (user, t1)"
      using choice_Inr by blast
    from pre gen_orphan_exhausted obtain t2 where
      g: "gen_orphan_transaction user (run_products st) t1 = Inr (None, run_products st, t2)"
      by blast
    from c g have
      "orphan_step users st = Inr (st\<lparr>run_products := run_products st, run_tape := t2\<rparr>)"
      by (simp add: orphan_step_def)
    with 1(2) pre have
      "f args users (st\<lparr>run_products := run_products st, run_tape := t2\<rparr>) = Some y"
      by simp
    from 1(1) [OF this] pre show False by simp
  qed
qed

lemma orphan_loop_exhausted_None:
  assumes "tx_written st < num_transactions args" "users \<noteq> []"
    "run_products st \<noteq> []" "exhausted (run_products st)"
  shows "orphan_loop args users st = None"
  using orphan_loop_never_returns [of args users st] assms by (cases "orphan_loop args users st") auto

lemma orphan_loop_target:
  assumes "orphan_loop args users st = Some y"
  shows "\<forall>st'. y = Inr st' \<longrightarrow> num_transactions args \<le> tx_written st'"
proof (rule orphan_loop.raw_induct
    [where P = "\<lambda>args users st y. \<forall>st'. y = Inr st' \<longrightarrow> num_transactions args \<le> tx_written st'",
     OF _ assms], goal_cases)
  case (1 f args users st y)
  show ?case
  proof (cases "tx_written st < num_transactions args")
    case False
    with 1(2) show ?thesis by auto
  next
    case True
    with 1(2) show ?thesis
      by (auto split: sum.splits dest!: 1(1))
  qed
qed

section \<open>The chunk loop\<close>



lemma sessions_loop_total: "\<exists>y. sessions_loop dumps args users categories st = Some y"
proof (induction "files_left st" arbitrary: st rule: less_induct)
  case less
  show ?case
  proof (cases "sess_written st < num_sessions args")
    case False
    then show ?thesis by (simp add: sessions_loop_done)
  next
    case True
    show ?thesis
    proof (cases "chunk_step dumps args users categories st")
      case (Inl e)
      with True show ?thesis by (subst sessions_loop.simps) simp
    next
      case (Inr st1)
      then have "files_left st1 < files_left st"
        by (rule chunk_stepE) simp
      from less [OF this] Inr True show ?thesis
        by (subst sessions_loop.simps) simp
    qed
  qed
qed

section \<open>The run\<close>

lemma prepareE:
  assumes "prepare args room t = Inr (categories, users, st0)"
  obtains t1 products t2 where
    "gen_categories (num_categories args) (subcats_min args, subcats_max args) t =
       Inr (categories, t1)"
    "gen_products categories (num_products args) t1 = Inr (products, t2)"
    "users = gen_users (num_users args)"
    "4 \<le> room"
    "st0 = \<lparr>products_initial = products, run_products = products, run_tape = t2,
            files_left = room - 4, tx_written = 0, sess_written = 0, chunk_idx = 0,
            session_files = [], transactions = []\<rparr>"
  using assms unfolding prepare_def create_file_def Let_def
  by (auto split: sum.splits if_splits)

lemma mainE:
  assumes "main dumps args room t = Some (Inr st)"
  obtains categories users st0 st1 where
    "prepare args room t = Inr (categories, users, st0)"
    "sessions_loop dumps args users categories st0 = Some (Inr st1)"
    "orphan_loop args users st1 = Some (Inr st)"
  using assms unfolding main_def
  by (auto split: sum.splits option.splits)

lemma main_reaches:
  assumes "main dumps args room t = Some (Inr st)"
  obtains categories users st0 where
    "prepare args room t = Inr (categories, users, st0)"
    "run_reaches dumps args users categories st0 st"
proof (rule mainE [OF assms])
  fix categories users st0 st1
  assume p: "prepare args room t = Inr (categories, users, st0)"
    and sl: "sessions_loop dumps args users categories st0 = Some (Inr st1)"
    and ol: "orphan_loop args users st1 = Some (Inr st)"
  from sessions_loop_reaches [OF sl] have
    r1: "run_reaches dumps args users categories st0 st1" and
    d: "\<not> sess_written st1 < num_sessions args" by simp_all
  from orphan_loop_reaches [OF ol d] have "run_reaches dumps args users categories st1 st" .
  from run_reaches_trans [OF this r1] p that show thesis by blast
qed

section \<open>Every change of the heap is a call of reserve\<close>

lemma reserve_cart_steps:
  "reserve_cart cart items ps = (items', ps') \<Longrightarrow> reserve_steps ps ps'"
proof (induction cart items ps rule: reserve_cart.induct)
  case (1 items ps)
  then show ?case by (simp add: no_step)
next
  case (2 pid qty rest items ps)
  show ?case
  proof (cases "qty \<le> 0")
    case True
    with 2 show ?thesis by simp
  next
    case False
    obtain ok ps1 where r: "reserve ps pid qty = (ok, ps1)" by (cases "reserve ps pid qty")
    have "reserve_steps ps (snd (reserve ps pid qty))"
      by (intro reserve_steps.intros)
    with r have s1: "reserve_steps ps ps1" by simp
    have "reserve_steps ps1 ps'"
    proof (cases ok)
      case True
      with 2(2) [OF False r [symmetric] refl True] 2(4) False r show ?thesis by simp
    next
      case no: False
      with 2(3) [OF False r [symmetric] refl no] 2(4) False r show ?thesis by simp
    qed
    from reserve_steps_trans [OF this s1] show ?thesis .
  qed
qed

lemma orphan_picks_steps:
  "orphan_picks k n_items items ps t = Inr (items', ps', t') \<Longrightarrow> reserve_steps ps ps'"
proof (induction k arbitrary: items ps t)
  case 0
  then show ?case by (simp add: no_step)
next
  case (Suc k)
  show ?case
  proof (cases "n_items \<le> length items")
    case True
    with Suc.prems show ?thesis by (simp add: no_step)
  next
    case False
    with Suc.prems obtain p t1 where c: "choice ps t = Inr (p, t1)"
      by (auto split: sum.splits)
    show ?thesis
    proof (cases "\<not> is_active p \<or> current_stock p \<le> 0")
      case True
      with Suc.prems False c have "orphan_picks k n_items items ps t1 = Inr (items', ps', t')"
        by auto
      then show ?thesis by (rule Suc.IH)
    next
      case avail: False
      with Suc.prems False c obtain qty t2 where q: "randint 1 3 t1 = Inr (qty, t2)"
        by (auto split: sum.splits)
      obtain ok ps1 where r: "reserve ps (product_id p) qty = (ok, ps1)"
        by (cases "reserve ps (product_id p) qty")
      have "reserve_steps ps (snd (reserve ps (product_id p) qty))"
        by (intro reserve_steps.intros)
      with r have s1: "reserve_steps ps ps1" by simp
      from Suc.prems False c avail q r have
        "orphan_picks k n_items
           (if ok then items @ [\<lparr>li_product_id = product_id p, li_quantity = qty\<rparr>] else items)
           ps1 t2 = Inr (items', ps', t')"
        by (auto simp: Let_def)
      from reserve_steps_trans [OF Suc.IH [OF this] s1] show ?thesis .
    qed
  qed
qed

lemma gen_orphan_steps:
  assumes "gen_orphan_transaction user ps t = Inr (tx, ps', t')"
  shows "reserve_steps ps ps'"
proof -
  from assms obtain n t1 items where
    "orphan_picks (nat (n * 3)) (nat n) [] ps t1 = Inr (items, ps', t')"
    by (auto simp: gen_orphan_transaction_def split: sum.splits if_splits)
  then show ?thesis by (rule orphan_picks_steps)
qed

lemma session_record_steps:
  assumes "session_record user ps categories t = Inr (s, tx, ps', t')"
  shows "reserve_steps ps ps'"
proof (rule session_recordE [OF assms])
  fix its
  assume n: "tx = None \<longrightarrow> ps' = ps \<or> reserve_cart (s_cart_contents s) [] ps = ([], ps')"
    and y: "tx \<noteq> None \<longrightarrow>
       tx = Some \<lparr>tx_session_id = Some (s_session_id s), tx_user_id = user, tx_items = its\<rparr> \<and>
       its \<noteq> [] \<and> reserve_cart (s_cart_contents s) [] ps = (its, ps')"
  show ?thesis
  proof (cases tx)
    case None
    with n show ?thesis by (auto intro: no_step dest: reserve_cart_steps)
  next
    case (Some x)
    with y show ?thesis by (auto dest: reserve_cart_steps)
  qed
qed

lemma iter_sessions_steps:
  "iter_sessions_for_chunk n users categories tx_target ps txw t =
     Inr (sessions, tx_buffer, ps', txw', t') \<Longrightarrow> reserve_steps ps ps'"
proof (induction n arbitrary: ps txw t sessions tx_buffer)
  case 0
  then show ?case by (simp add: no_step)
next
  case (Suc n)
  from Suc.prems obtain user t1 where c: "choice users t = Inr (user, t1)"
    by (auto split: sum.splits)
  with Suc.prems obtain s tx ps1 t2 where
    sr: "session_record user ps categories t1 = Inr (s, tx, ps1, t2)"
    by (auto split: sum.splits)
  obtain b w where bw:
    "(case tx of Some x \<Rightarrow> if txw < tx_target then ([x], txw + 1) else ([], txw)
      | None \<Rightarrow> ([], txw)) = (b, w)"
    by (cases "(case tx of Some x \<Rightarrow> if txw < tx_target then ([x], txw + 1) else ([], txw)
                | None \<Rightarrow> ([], txw))")
  from Suc.prems c sr bw obtain ss bf where
    rest: "iter_sessions_for_chunk n users categories tx_target ps1 w t2 =
             Inr (ss, bf, ps', txw', t')"
    by (auto split: sum.splits)
  from reserve_steps_trans [OF Suc.IH [OF rest] session_record_steps [OF sr]]
  show ?case .
qed

lemma chunk_step_steps:
  assumes "chunk_step dumps args users categories st = Inr st'"
  shows "reserve_steps (run_products st) (run_products st')"
  by (rule chunk_stepE [OF assms]) (auto dest: iter_sessions_steps)

lemma orphan_step_steps:
  assumes "orphan_step users st = Inr st'"
  shows "reserve_steps (run_products st) (run_products st')"
  by (rule orphan_stepE [OF assms]) (auto dest: gen_orphan_steps)

lemma run_reaches_steps:
  "run_reaches dumps args users categories st st' \<Longrightarrow>
     reserve_steps (run_products st) (run_products st')"
proof (induction rule: run_reaches.induct)
  case (here dumps args users categories st)
  show ?case by (rule no_step)
next
  case (chunk_turn dumps args users categories st st1 st2)
  from reserve_steps_trans [OF chunk_step_steps [OF chunk_turn(3)] chunk_turn(4)]
  show ?case .
next
  case (orphan_turn dumps args users categories st st1 st2)
  from reserve_steps_trans [OF orphan_step_steps [OF orphan_turn(4)] orphan_turn(5)]
  show ?case .
qed

lemma prepare_deactivated:
  assumes "prepare args room t = Inr (categories, users, st0)"
  shows "deactivated (run_products st0)"
proof (rule prepareE [OF assms])
  fix t1 products t2
  assume "gen_products categories (num_products args) t1 = Inr (products, t2)"
    and "st0 = \<lparr>products_initial = products, run_products = products, run_tape = t2,
            files_left = room - 4, tx_written = 0, sess_written = 0, chunk_idx = 0,
            session_files = [], transactions = []\<rparr>"
  then show ?thesis by (simp add: gen_products_def gen_products_from_deactivated)
qed

section \<open>Stock and committed quantities\<close>

lemma lines_qty_simps:
  "lines_qty q [] = 0"
  "lines_qty q (xs @ ys) = lines_qty q xs + lines_qty q ys"
  "lines_qty q [\<lparr>li_product_id = pid, li_quantity = qty\<rparr>] = (if pid = q then qty else 0)"
  by (simp_all add: lines_qty_def)

lemma committed_qty_simps:
  "committed_qty q [] = 0"
  "committed_qty q (txs @ txs') = committed_qty q txs + committed_qty q txs'"
  "committed_qty q [tx] = lines_qty q (tx_items tx)"
  by (simp_all add: committed_qty_def lines_qty_def)

lemma stock_step_refl: "stock_step ps items ps items"
  by (simp add: stock_step_def)

lemma stock_step_trans:
  "stock_step ps items ps1 items1 \<Longrightarrow> stock_step ps1 items1 ps2 items2 \<Longrightarrow>
     stock_step ps items ps2 items2"
  unfolding stock_step_def by (metis order_trans)

lemma stock_step_reserve:
  assumes "0 \<le> qty"
  shows "stock_step ps items (snd (reserve ps pid qty))
           (if fst (reserve ps pid qty)
            then items @ [\<lparr>li_product_id = pid, li_quantity = qty\<rparr>] else items)"
  using assms reserve_True_le [of ps pid qty]
  by (auto simp: stock_step_def reserve_ids reserve_stock_of lines_qty_simps)

lemma reserve_cart_stock:
  "reserve_cart cart items ps = (items', ps') \<Longrightarrow> stock_step ps items ps' items'"
proof (induction cart items ps rule: reserve_cart.induct)
  case (1 items ps)
  then show ?case by (simp add: stock_step_refl)
next
  case (2 pid qty rest items ps)
  show ?case
  proof (cases "qty \<le> 0")
    case True
    with 2 show ?thesis by simp
  next
    case False
    obtain ok ps1 where r: "reserve ps pid qty = (ok, ps1)" by (cases "reserve ps pid qty")
    from False have "0 \<le> qty" by simp
    from stock_step_reserve [OF this, of ps items pid] r have
      s1: "stock_step ps items ps1
             (if ok then items @ [\<lparr>li_product_id = pid, li_quantity = qty\<rparr>] else items)"
      by simp
    show ?thesis
    proof (cases ok)
      case True
      with 2(2) [OF False r [symmetric] refl True] 2(4) False r have
        "stock_step ps1 (items @ [\<lparr>li_product_id = pid, li_quantity = qty\<rparr>]) ps' items'"
        by simp
      with s1 True show ?thesis by (auto intro: stock_step_trans)
    next
      case no: False
      with 2(3) [OF False r [symmetric] refl no] 2(4) False r have
        "stock_step ps1 items ps' items'"
        by simp
      with s1 no show ?thesis by (auto intro: stock_step_trans)
    qed
  qed
qed


lemma randint_bounds: "randint a b t = Inr (x, t') \<Longrightarrow> a \<le> x \<and> x \<le> b"
proof -
  assume r: "randint a b t = Inr (x, t')"
  then have ab: "a \<le> b" and x: "x = a + int (t 0 mod nat (b - a + 1))"
    by (auto simp: randint_def split: if_splits)
  from ab have "t 0 mod nat (b - a + 1) < nat (b - a + 1)" by simp
  with ab x show ?thesis by linarith
qed

lemma orphan_picks_stock:
  "orphan_picks k n_items items ps t = Inr (items', ps', t') \<Longrightarrow> stock_step ps items ps' items'"
proof (induction k arbitrary: items ps t)
  case 0
  then show ?case by (simp add: stock_step_refl)
next
  case (Suc k)
  show ?case
  proof (cases "n_items \<le> length items")
    case True
    with Suc.prems show ?thesis by (simp add: stock_step_refl)
  next
    case False
    with Suc.prems obtain p t1 where c: "choice ps t = Inr (p, t1)"
      by (auto split: sum.splits)
    show ?thesis
    proof (cases "\<not> is_active p \<or> current_stock p \<le> 0")
      case True
      with Suc.prems False c have "orphan_picks k n_items items ps t1 = Inr (items', ps', t')"
        by auto
      then show ?thesis by (rule Suc.IH)
    next
      case avail: False
      with Suc.prems False c obtain qty t2 where q: "randint 1 3 t1 = Inr (qty, t2)"
        by (auto split: sum.splits)
      from randint_bounds [OF q] have "0 \<le> qty" by simp
      note s1 = stock_step_reserve [OF this, of ps items "product_id p"]
      obtain ok ps1 where r: "reserve ps (product_id p) qty = (ok, ps1)"
        by (cases "reserve ps (product_id p) qty")
      from Suc.prems False c avail q r have
        "orphan_picks k n_items
           (if ok then items @ [\<lparr>li_product_id = product_id p, li_quantity = qty\<rparr>] else items)
           ps1 t2 = Inr (items', ps', t')"
        by (auto simp: Let_def)
      from Suc.IH [OF this] s1 r show ?thesis by (auto intro: stock_step_trans)
    qed
  qed
qed

lemma gen_orphan_stock:
  assumes "gen_orphan_transaction user ps t = Inr (tx, ps', t')"
  shows "stock_step ps [] ps' (tx_lines tx)"
proof -
  from assms obtain n t1 items where
    o: "orphan_picks (nat (n * 3)) (nat n) [] ps t1 = Inr (items, ps', t')" and
    tx: "tx = (if items = [] then None
               else Some \<lparr>tx_session_id = None, tx_user_id = user, tx_items = items\<rparr>)"
    by (auto simp: gen_orphan_transaction_def split: sum.splits if_splits)
  from tx have "tx_lines tx = items" by (simp add: tx_lines_def)
  with orphan_picks_stock [OF o] show ?thesis by simp
qed

lemma session_record_stock:
  assumes "session_record user ps categories t = Inr (s, tx, ps', t')"
  shows "stock_step ps [] ps' (tx_lines tx)"
proof (rule session_recordE [OF assms])
  fix its
  assume n: "tx = None \<longrightarrow> ps' = ps \<or> reserve_cart (s_cart_contents s) [] ps = ([], ps')"
    and y: "tx \<noteq> None \<longrightarrow>
       tx = Some \<lparr>tx_session_id = Some (s_session_id s), tx_user_id = user, tx_items = its\<rparr> \<and>
       its \<noteq> [] \<and> reserve_cart (s_cart_contents s) [] ps = (its, ps')"
  show ?thesis
  proof (cases tx)
    case None
    with n show ?thesis
      by (auto simp: tx_lines_def stock_step_refl dest: reserve_cart_stock)
  next
    case (Some x)
    with y show ?thesis
      by (auto simp: tx_lines_def dest: reserve_cart_stock)
  qed
qed

lemma iter_sessions_stock:
  assumes "iter_sessions_for_chunk n users categories tx_target ps txw t =
             Inr (sessions, tx_buffer, ps', txw', t')"
  shows "map product_id ps' = map product_id ps \<and>
         (\<forall>q. committed_qty q tx_buffer + stock_of ps' q \<le> stock_of ps q) \<and>
         (\<forall>q. 0 \<le> committed_qty q tx_buffer) \<and>
         (\<forall>q. 0 \<le> stock_of ps q \<longrightarrow> 0 \<le> stock_of ps' q)"
  using assms
proof (induction n arbitrary: ps txw t sessions tx_buffer)
  case 0
  then show ?case by (simp add: committed_qty_simps)
next
  case (Suc n)
  from Suc.prems obtain user t1 where c: "choice users t = Inr (user, t1)"
    by (auto split: sum.splits)
  with Suc.prems obtain s tx ps1 t2 where
    sr: "session_record user ps categories t1 = Inr (s, tx, ps1, t2)"
    by (auto split: sum.splits)
  define b where "b = (case tx of Some x \<Rightarrow> if txw < tx_target then [x] else [] | None \<Rightarrow> [])"
  define w where "w = txw + int (length b)"
  have bw: "(case tx of Some x \<Rightarrow> if txw < tx_target then ([x], txw + 1) else ([], txw)
             | None \<Rightarrow> ([], txw)) = (b, w)"
    by (simp add: b_def w_def split: option.splits)
  from Suc.prems c sr bw obtain ss bf where
    rest: "iter_sessions_for_chunk n users categories tx_target ps1 w t2 =
             Inr (ss, bf, ps', txw', t')" and
    eq: "sessions = s # ss" "tx_buffer = b @ bf"
    by (auto split: sum.splits)
  note ih = Suc.IH [OF rest]
  from session_record_stock [OF sr] have
    s1: "map product_id ps1 = map product_id ps"
        "\<And>q. stock_of ps1 q + lines_qty q (tx_lines tx) = stock_of ps q"
        "\<And>q. 0 \<le> lines_qty q (tx_lines tx)"
        "\<And>q. 0 \<le> stock_of ps q \<Longrightarrow> 0 \<le> stock_of ps1 q"
    by (simp_all add: stock_step_def lines_qty_simps)
  have b: "committed_qty q b \<le> lines_qty q (tx_lines tx) \<and> 0 \<le> committed_qty q b" for q
    using s1(3) [of q]
    by (auto simp: b_def tx_lines_def committed_qty_simps split: option.splits)
  have "committed_qty q (b @ bf) + stock_of ps' q \<le> stock_of ps q" for q
    using ih b [of q] s1(2) [of q] by (simp add: committed_qty_simps) (smt (verit))
  moreover have "0 \<le> committed_qty q (b @ bf)" for q
    using ih b [of q] by (simp add: committed_qty_simps)
  ultimately show ?case using ih s1 eq by simp
qed



lemma chunk_step_conserved:
  assumes c: "chunk_step dumps args users categories st = Inr st'"
    and inv: "conserved ps0 st"
  shows "conserved ps0 st'"
proof (rule chunk_stepE [OF c])
  fix sessions tx_buffer ps txw t
  assume it: "iter_sessions_for_chunk
       (nat (min (sessions_chunk_size args) (num_sessions args - sess_written st)))
       users categories (num_transactions args) (run_products st) (tx_written st) (run_tape st) =
     Inr (sessions, tx_buffer, ps, txw, t)"
    and st': "st' = st\<lparr>run_products := ps, run_tape := t, files_left := files_left st - 1,
               tx_written := txw,
               sess_written := sess_written st + int (length sessions),
               chunk_idx := chunk_idx st + 1,
               session_files := session_files st @ [sessions],
               transactions := transactions st @ tx_buffer\<rparr>"
  note s = iter_sessions_stock [OF it]
  have "committed_qty q (transactions st @ tx_buffer) + stock_of ps q \<le> stock_of ps0 q" for q
  proof -
    from s have "committed_qty q tx_buffer + stock_of ps q \<le> stock_of (run_products st) q"
      by simp
    moreover from inv have
      "committed_qty q (transactions st) + stock_of (run_products st) q \<le> stock_of ps0 q"
      by (simp add: conserved_def)
    ultimately show ?thesis by (simp add: committed_qty_simps)
  qed
  with inv s st' show ?thesis by (simp add: conserved_def)
qed

lemma orphan_step_conserved:
  assumes o: "orphan_step users st = Inr st'"
    and inv: "conserved ps0 st"
  shows "conserved ps0 st'"
proof (rule orphan_stepE [OF o])
  fix user t1 ps t2
  assume g: "gen_orphan_transaction user (run_products st) t1 = Inr (None, ps, t2)"
    and st': "st' = st\<lparr>run_products := ps, run_tape := t2\<rparr>"
  from gen_orphan_stock [OF g] have
    "map product_id ps = map product_id (run_products st)"
    "\<And>q. stock_of ps q = stock_of (run_products st) q"
    by (simp_all add: stock_step_def tx_lines_def lines_qty_simps)
  with inv st' show ?thesis by (simp add: conserved_def)
next
  fix user t1 tx ps t2
  assume g: "gen_orphan_transaction user (run_products st) t1 = Inr (Some tx, ps, t2)"
    and st': "st' = st\<lparr>run_products := ps, run_tape := t2,
                 transactions := transactions st @ [tx],
                 tx_written := tx_written st + 1\<rparr>"
  from gen_orphan_stock [OF g] have s:
    "map product_id ps = map product_id (run_products st)"
    "\<And>q. stock_of ps q + lines_qty q (tx_items tx) = stock_of (run_products st) q"
    "\<And>q. 0 \<le> stock_of (run_products st) q \<Longrightarrow> 0 \<le> stock_of ps q"
    by (simp_all add: stock_step_def tx_lines_def lines_qty_simps)
  have "committed_qty q (transactions st @ [tx]) + stock_of ps q \<le> stock_of ps0 q" for q
  proof -
    from inv have
      "committed_qty q (transactions st) + stock_of (run_products st) q \<le> stock_of ps0 q"
      by (simp add: conserved_def)
    with s(2) [of q] show ?thesis by (simp add: committed_qty_simps)
  qed
  with inv s st' show ?thesis by (simp add: conserved_def)
qed

lemma run_reaches_conserved:
  "run_reaches dumps args users categories st st' \<Longrightarrow> conserved ps0 st \<Longrightarrow> conserved ps0 st'"
  by (induction rule: run_reaches.induct)
     (auto intro: chunk_step_conserved orphan_step_conserved)

lemma prepare_conserved:
  assumes "prepare args room t = Inr (categories, users, st0)"
  shows "conserved (products_initial st0) st0 \<and> distinct (map product_id (products_initial st0))"
proof (rule prepareE [OF assms])
  fix t1 products t2
  assume gp: "gen_products categories (num_products args) t1 = Inr (products, t2)"
    and st0: "st0 = \<lparr>products_initial = products, run_products = products, run_tape = t2,
            files_left = room - 4, tx_written = 0, sess_written = 0, chunk_idx = 0,
            session_files = [], transactions = []\<rparr>"
  from gen_products_ids [OF gp] have
    d: "distinct (map product_id products)" and nn: "\<forall>p \<in> set products. 0 \<le> current_stock p"
    by simp_all
  from nn have "conserved products st0"
    by (simp add: st0 conserved_def committed_qty_simps stock_of_nonneg)
  with d st0 show ?thesis by simp
qed

lemma conserved_committed:
  assumes c: "conserved ps0 st" and d: "distinct (map product_id ps0)"
  shows "\<forall>p \<in> set (products_initial st).
           committed_qty (product_id p) (transactions st) \<le> current_stock p"
proof
  fix p assume "p \<in> set (products_initial st)"
  with c have p: "p \<in> set ps0" by (simp add: conserved_def)
  from c have "committed_qty (product_id p) (transactions st) +
                 stock_of (run_products st) (product_id p) \<le> stock_of ps0 (product_id p)"
    "0 \<le> stock_of (run_products st) (product_id p)"
    by (simp_all add: conserved_def)
  with stock_of_distinct [OF d p]
  show "committed_qty (product_id p) (transactions st) \<le> current_stock p" by simp
qed

section \<open>The transaction stream\<close>

lemma chunk_step_linked:
  assumes c: "chunk_step dumps args users categories st = Inr st'"
    and inv: "linked_inv args st"
  shows "linked_inv args st'"
proof (rule chunk_stepE [OF c])
  fix sessions tx_buffer ps txw t
  assume it: "iter_sessions_for_chunk
       (nat (min (sessions_chunk_size args) (num_sessions args - sess_written st)))
       users categories (num_transactions args) (run_products st) (tx_written st) (run_tape st) =
     Inr (sessions, tx_buffer, ps, txw, t)"
    and st': "st' = st\<lparr>run_products := ps, run_tape := t, files_left := files_left st - 1,
               tx_written := txw,
               sess_written := sess_written st + int (length sessions),
               chunk_idx := chunk_idx st + 1,
               session_files := session_files st @ [sessions],
               transactions := transactions st @ tx_buffer\<rparr>"
  from iter_sessions_ids [OF it] have
    ids: "map tx_session_id tx_buffer =
            take (nat (num_transactions args - tx_written st)) (converted_ids sessions)"
    and w: "txw = tx_written st + int (length tx_buffer)" by simp_all
  from inv have
    a: "tx_written st = int (length (transactions st))" and
    b: "session_linked (transactions st) = transactions st" and
    c: "map tx_session_id (transactions st) =
          take (nat (num_transactions args)) (converted_ids (concat (session_files st)))"
    by (simp_all add: linked_inv_def)
  have "tx_session_id x \<noteq> None" if "x \<in> set tx_buffer" for x
  proof -
    from that have "tx_session_id x \<in> set (map tx_session_id tx_buffer)" by simp
    with ids have "tx_session_id x \<in> set (converted_ids sessions)"
      by (auto dest: in_set_takeD)
    then show ?thesis by (auto simp: converted_ids_def)
  qed
  then have d: "session_linked tx_buffer = tx_buffer"
    by (simp add: session_linked_def)
  have e: "map tx_session_id (transactions st) @ map tx_session_id tx_buffer =
        take (nat (num_transactions args))
          (converted_ids (concat (session_files st)) @ converted_ids sessions)"
  proof (cases "0 \<le> num_transactions args")
    case True
    show ?thesis
    proof (rule take_ids_append [OF c])
      from True a show "map tx_session_id tx_buffer =
        take (nat (int (nat (num_transactions args)) -
                   int (length (map tx_session_id (transactions st)))))
          (converted_ids sessions)"
        by (simp add: ids)
    qed
  next
    case False
    with c ids a show ?thesis by simp
  qed
  from a b d e w st' show ?thesis
    by (simp add: linked_inv_def converted_ids_simps session_linked_def)
qed

lemma run_reaches_linked:
  assumes "run_reaches dumps args users categories st st'" and "linked_inv args st"
  shows "tx_written st' = int (length (transactions st')) \<and>
         map tx_session_id (session_linked (transactions st')) =
           take (nat (num_transactions args)) (converted_ids (concat (session_files st'))) \<and>
         (sess_written st' < num_sessions args \<longrightarrow> linked_inv args st')"
  using assms
proof (induction rule: run_reaches.induct)
  case (here dumps args users categories st)
  then show ?case by (simp add: linked_inv_def)
next
  case (chunk_turn dumps args users categories st st1 st2)
  from chunk_turn(4) [OF chunk_turn(5)] chunk_turn(2) have "linked_inv args st1" by simp
  from chunk_step_linked [OF chunk_turn(3) this] show ?case by (simp add: linked_inv_def)
next
  case (orphan_turn dumps args users categories st st1 st2)
  from orphan_turn(5) [OF orphan_turn(6)] have
    ih: "tx_written st1 = int (length (transactions st1))"
        "map tx_session_id (session_linked (transactions st1)) =
           take (nat (num_transactions args)) (converted_ids (concat (session_files st1)))"
    by simp_all
  from orphan_turn(4) have
    "tx_written st2 = int (length (transactions st2)) \<and>
     session_linked (transactions st2) = session_linked (transactions st1) \<and>
     session_files st2 = session_files st1 \<and> sess_written st2 = sess_written st1"
  proof (rule orphan_stepE)
    fix user t1 ps t2
    assume "st2 = st1\<lparr>run_products := ps, run_tape := t2\<rparr>"
    with ih show ?thesis by simp
  next
    fix user t1 tx ps t2
    assume "gen_orphan_transaction user (run_products st1) t1 = Inr (Some tx, ps, t2)"
      and "st2 = st1\<lparr>run_products := ps, run_tape := t2,
                 transactions := transactions st1 @ [tx],
                 tx_written := tx_written st1 + 1\<rparr>"
    with ih show ?thesis by (simp add: session_linked_def gen_orphan_no_session)
  qed
  with ih orphan_turn(2) show ?case by simp
qed

lemma prepare_linked:
  assumes "prepare args room t = Inr (categories, users, st0)"
  shows "linked_inv args st0 \<and> session_files st0 = [] \<and> transactions st0 = [] \<and>
         sess_written st0 = 0 \<and> tx_written st0 = 0"
  by (rule prepareE [OF assms])
     (simp add: linked_inv_def session_linked_def converted_ids_simps)


lemma Inr_triple_projr:
  "map_sum id (\<lambda>r. (fst r, fst (snd r))) r = Inr (x, y) \<Longrightarrow>
     r = Inr (x, y, snd (snd (projr r)))"
  by (cases r) auto

section \<open>Properties\<close>

text \<open>
  C3: if \<open>pid\<close> is in the ledger, active and holds at least \<open>qty\<close>, \<open>reserve\<close> returns true,
  takes exactly \<open>qty\<close> from that product's stock and leaves it active exactly when the stock
  left is not 0; otherwise it returns false and the heap is unchanged. No stock that was
  non-negative becomes negative, and the stock of a reserved product is never negative.
\<close>

theorem reserve_contract:
  "(if (\<exists>j. Inventory ps pid = Some j \<and> is_active (ps ! j) \<and> qty \<le> current_stock (ps ! j))
    then (\<exists>j. Inventory ps pid = Some j \<and> j < length ps \<and>
             reserve ps pid qty =
               (True, ps[j := (ps ! j)\<lparr>current_stock := current_stock (ps ! j) - qty,
                                      is_active := (current_stock (ps ! j) - qty \<noteq> 0)\<rparr>]) \<and>
             0 \<le> current_stock (snd (reserve ps pid qty) ! j))
    else reserve ps pid qty = (False, ps)) \<and>
   (\<forall>i < length ps. 0 \<le> current_stock (ps ! i) \<longrightarrow>
        0 \<le> current_stock (snd (reserve ps pid qty) ! i))"
proof (cases "\<exists>j. Inventory ps pid = Some j \<and> is_active (ps ! j) \<and> qty \<le> current_stock (ps ! j)")
  case True
  then obtain j where j: "Inventory ps pid = Some j" "is_active (ps ! j)"
    "qty \<le> current_stock (ps ! j)" by blast
  from Inventory_SomeD [OF j(1)] have len: "j < length ps" by simp
  note r = reserve_ok [OF j]
  have "0 \<le> current_stock (snd (reserve ps pid qty) ! i)"
    if "i < length ps" "0 \<le> current_stock (ps ! i)" for i
    using that j(3) len by (cases "i = j") (simp_all add: r)
  moreover have "0 \<le> current_stock (snd (reserve ps pid qty) ! j)"
    using j(3) len by (simp add: r)
  ultimately show ?thesis using True j(1) len r by auto
next
  case False
  then have "\<not> in_stock ps pid qty" by (simp add: in_stock_iff)
  then have "reserve ps pid qty = (False, ps)" by (rule reserve_fail)
  with False show ?thesis by simp
qed

theorem reserve_contract_witness:
  "reserve [example_product] ''prod_00000'' 10 =
     (True, [example_product\<lparr>current_stock := 0, is_active := False\<rparr>])"
  using reserve_contract [of "[example_product]" "''prod_00000''" 10]
  by (simp add: Inventory_def example_product_def)

text \<open>
  C7: for every list of records, \<open>write_json_array\<close> writes the text of a JSON array whose
  elements are the texts \<open>dumps\<close> gives for the records, in the order of the source (the
  empty list gives an empty array), and returns the number of records.
\<close>

theorem write_json_array_valid:
  "json_array (map dumps xs) (fst (write_json_array dumps xs)) \<and>
   snd (write_json_array dumps xs) = int (length xs)"
proof (cases xs)
  case Nil
  have "json_array [] (''['' @ ''\<newline>\<newline>'' @ '']'' @ ''\<newline>'')"
    by (intro empty_array json_ws_simps)
  with Nil show ?thesis by (simp add: write_json_array_Nil)
next
  case (Cons x ys)
  have "json_array (map dumps (x # ys))
          (''['' @ (''\<newline>'' @ dumps x @ concat (map (\<lambda>y. '',\<newline>'' @ dumps y) ys) @ ''\<newline>'')
             @ '']'' @ ''\<newline>'')"
    by (intro elements_array json_elements_lines json_ws_simps)
  with Cons show ?thesis by (simp only: write_json_array_Cons fst_conv snd_conv) simp
qed

theorem write_json_array_valid_witness:
  "json_array [''1'', ''{}''] ''[\<newline>1,\<newline>{}\<newline>]\<newline>'' \<and>
   snd (write_json_array id [''1'', ''{}'']) = 2"
  using write_json_array_valid [of id "[''1'', ''{}'']"]
  by (simp add: write_json_array_def)

text \<open>
  C9 (as the code has it): a product_detail page makes at most six draws. It records the
  first of the first five draws that is active and in stock, and draws no more; when none
  of the five is, it makes a sixth draw and records that one, whatever its state. With
  \<open>k\<close> the position of the recorded draw, \<open>k + 1\<close> draws are taken from the tape.
\<close>

theorem product_detail_draws:
  assumes "ps \<noteq> []"
  shows "\<exists>k\<le>5. pick_detail_product ps t = Inr (nth_draw ps t k, drop_tape (Suc k) t) \<and>
           (\<forall>j<k. \<not> (is_active (nth_draw ps t j) \<and> 0 < current_stock (nth_draw ps t j))) \<and>
           (k < 5 \<longrightarrow> is_active (nth_draw ps t k) \<and> 0 < current_stock (nth_draw ps t k))"
  using pick_tries_draws [OF assms, of 5 t]
proof
  assume "\<exists>k<5. pick_tries 5 ps t = Inr (Some (nth_draw ps t k), drop_tape (Suc k) t) \<and>
            is_active (nth_draw ps t k) \<and> 0 < current_stock (nth_draw ps t k) \<and>
            (\<forall>j<k. \<not> (is_active (nth_draw ps t j) \<and> 0 < current_stock (nth_draw ps t j)))"
  then obtain k where k: "k < 5"
    "pick_tries 5 ps t = Inr (Some (nth_draw ps t k), drop_tape (Suc k) t)"
    "is_active (nth_draw ps t k)" "0 < current_stock (nth_draw ps t k)"
    "\<forall>j<k. \<not> (is_active (nth_draw ps t j) \<and> 0 < current_stock (nth_draw ps t j))"
    by blast
  from k(2) have "pick_detail_product ps t = Inr (nth_draw ps t k, drop_tape (Suc k) t)"
    by (simp add: pick_detail_product_def)
  with k show ?thesis by (intro exI [of _ k]) simp
next
  assume none: "pick_tries 5 ps t = Inr (None, drop_tape 5 t) \<and>
     (\<forall>j<5. \<not> (is_active (nth_draw ps t j) \<and> 0 < current_stock (nth_draw ps t j)))"
  have "choice ps (drop_tape 5 t) = Inr (nth_draw ps t 5, drop_tape (Suc 5) t)"
    using assms by (simp add: choice_def nth_draw_def drop_tape_def tl_tape_def add.commute)
  with none have "pick_detail_product ps t = Inr (nth_draw ps t 5, drop_tape (Suc 5) t)"
    by (simp add: pick_detail_product_def)
  with none show ?thesis by (intro exI [of _ 5]) simp
qed

theorem product_detail_draws_witness:
  "map_sum id fst (pick_detail_product [example_product] (tape_of [])) = Inr example_product"
  using product_detail_draws [of "[example_product]" "tape_of []"]
  by (auto simp: nth_draw_def)

text \<open>
  The claim of C9 as the specification states it (the last of the five draws is recorded
  and no further draw is made) fails: here the five draws give the first product, which is
  inactive, and the product recorded is the second one, given by the sixth draw.
\<close>

theorem product_detail_last_draw_counterexample:
  "map_sum id fst
     (pick_detail_product
        [example_product\<lparr>current_stock := 0, is_active := False\<rparr>,
         example_product\<lparr>product_id := ''prod_00001'', is_active := False\<rparr>]
        (tape_of [0, 0, 0, 0, 0, 1])) =
     Inr (example_product\<lparr>product_id := ''prod_00001'', is_active := False\<rparr>) \<and>
   nth_draw [example_product\<lparr>current_stock := 0, is_active := False\<rparr>,
             example_product\<lparr>product_id := ''prod_00001'', is_active := False\<rparr>]
     (tape_of [0, 0, 0, 0, 0, 1]) 4 =
     example_product\<lparr>current_stock := 0, is_active := False\<rparr> \<and>
   nth_draw [example_product\<lparr>current_stock := 0, is_active := False\<rparr>,
             example_product\<lparr>product_id := ''prod_00001'', is_active := False\<rparr>]
     (tape_of [0, 0, 0, 0, 0, 1]) 5 =
     example_product\<lparr>product_id := ''prod_00001'', is_active := False\<rparr>"
  by code_simp

text \<open>
  C10: in the session record that \<open>session_record\<close> returns, \<open>viewed_products\<close> is strictly
  ascending (sorted and free of duplicates) and holds exactly the product ids recorded on
  the session's product_detail page views.
\<close>

theorem viewed_products_sorted:
  assumes "session_record user ps categories t = Inr (s, tx, ps', t')"
  shows "sorted_wrt (<) (s_viewed_products s) \<and>
         set (s_viewed_products s) =
           {pid. \<exists>pv \<in> set (s_page_views s).
                   pv_page_type pv = Product_detail \<and> pv_product_id pv = Some pid}"
proof (rule session_recordE [OF assms])
  fix slots t3 st t4
  assume loop: "page_loop ps categories slots [0..<length slots - 1]
       \<lparr>sim_page_views = [], sim_viewed = {}, sim_cart = []\<rparr> t3 = Inr (st, t4)"
    and v: "s_viewed_products s = sorted_list_of_set (sim_viewed st)"
    and p: "s_page_views s = sim_page_views st"
  have "finite (sim_viewed st) \<and> sim_viewed st = detail_ids (sim_page_views st)"
    by (rule page_loop_viewed [OF loop]) (simp_all add: detail_ids_simps)
  then have "finite (sim_viewed st)" "sim_viewed st = detail_ids (sim_page_views st)"
    by blast+
  with v p show ?thesis by (simp add: detail_ids_def)
qed

theorem viewed_products_sorted_witness:
  "map_sum id fst
     (session_record ''user_000000'' [example_product] [example_category]
        (tape_of [0, 0, 0, 0, 0, 0, 0, 0, 0, 0, 0, 0, 0, 0, 0, 50])) =
     Inr (fst (projr (session_record ''user_000000'' [example_product] [example_category]
        (tape_of [0, 0, 0, 0, 0, 0, 0, 0, 0, 0, 0, 0, 0, 0, 0, 50])))) \<and>
   set (s_viewed_products (fst (projr
     (session_record ''user_000000'' [example_product] [example_category]
        (tape_of [0, 0, 0, 0, 0, 0, 0, 0, 0, 0, 0, 0, 0, 0, 0, 50]))))) = {''prod_00000''}"
proof -
  let ?r = "session_record ''user_000000'' [example_product] [example_category]
        (tape_of [0, 0, 0, 0, 0, 0, 0, 0, 0, 0, 0, 0, 0, 0, 0, 50])"
  have isr: "isl ?r = False" by code_simp
  then have r: "?r = Inr (fst (projr ?r), fst (snd (projr ?r)), fst (snd (snd (projr ?r))),
                        snd (snd (snd (projr ?r))))"
    by (cases ?r) auto
  have pv: "map pv_product_id (s_page_views (fst (projr ?r))) = [None, Some ''prod_00000'']"
    "map pv_page_type (s_page_views (fst (projr ?r))) = [Home, Product_detail]"
    by code_simp+
  have "{pid. \<exists>pv \<in> set (s_page_views (fst (projr ?r))).
              pv_page_type pv = Product_detail \<and> pv_product_id pv = Some pid} = {''prod_00000''}"
  proof -
    from pv obtain a b where ab: "s_page_views (fst (projr ?r)) = [a, b]"
      "pv_product_id a = None" "pv_product_id b = Some ''prod_00000''"
      "pv_page_type b = Product_detail"
      by (auto simp: map_eq_Cons_conv)
    then show ?thesis by auto
  qed
  with viewed_products_sorted [OF r] isr show ?thesis
    by (cases ?r) auto
qed

text \<open>
  C6: the comment of \<^verbatim>\<open>make_page_flow\<close> promises 4 to 14 page views, but the cut points
  are collected in a set, so equal draws collapse. On the tape of zeros the duration is 30,
  four views are asked for and the three cut points drawn are all 1: the slots are
  0, 1, 30 and the session has two page views, of 1 and 29 seconds.
\<close>

theorem page_views_two_slots:
  "map_sum id (map pv_view_duration \<circ> s_page_views \<circ> fst)
     (session_record ''user_000000'' [example_product] [example_category] (tape_of [])) =
   Inr [1, 29]"
  by code_simp

text \<open>
  C4 (as the code has it): the orphan loop has no test for an exhausted product pool. It
  ends normally only with the transaction target reached; when the target is unmet and no
  product is active and in stock (with at least one product and one user, so that no draw
  raises), every call of \<open>gen_orphan_transaction\<close> gives no transaction and the loop never
  returns.
\<close>

theorem orphan_loop_only_stops_at_target:
  "(orphan_loop args users st = Some (Inr st') \<longrightarrow> num_transactions args \<le> tx_written st') \<and>
   (tx_written st < num_transactions args \<and> users \<noteq> [] \<and> run_products st \<noteq> [] \<and>
      exhausted (run_products st) \<longrightarrow> orphan_loop args users st = None)"
  using orphan_loop_target [of args users st "Inr st'"] orphan_loop_exhausted_None [of st args users]
  by blast

theorem orphan_loop_only_stops_at_target_witness:
  "1 \<le> tx_written (projr (the (orphan_loop example_config [''user_000000''] example_run))) \<and>
   orphan_loop example_config [''user_000000'']
     (example_run\<lparr>run_products := [example_product\<lparr>current_stock := 0, is_active := False\<rparr>]\<rparr>) =
     None"
proof -
  have r: "orphan_loop example_config [''user_000000''] example_run =
             Some (Inr (projr (the (orphan_loop example_config [''user_000000''] example_run))))"
    by (rule Some_Inr_projr) code_simp
  have "1 \<le> tx_written (projr (the (orphan_loop example_config [''user_000000''] example_run)))"
    using orphan_loop_only_stops_at_target
            [of example_config "[''user_000000'']" example_run
                "projr (the (orphan_loop example_config [''user_000000''] example_run))"] r
    by (simp add: example_config_def)
  moreover have "orphan_loop example_config [''user_000000'']
     (example_run\<lparr>run_products := [example_product\<lparr>current_stock := 0, is_active := False\<rparr>]\<rparr>) =
     None"
    using orphan_loop_only_stops_at_target
            [of example_config "[''user_000000'']"
                "example_run\<lparr>run_products :=
                   [example_product\<lparr>current_stock := 0, is_active := False\<rparr>]\<rparr>"]
    by (simp add: example_config_def example_run_def exhausted_def)
  ultimately show ?thesis by simp
qed

text \<open>
  The claim of C4 as the specification states it fails: with one product, drawn inactive
  and without stock, and a target of one transaction, the run generates its session and
  then stays in the orphan loop for ever.
\<close>

theorem orphan_loop_hangs_counterexample:
  "main s_session_id example_config 10 (tape_of [0, 0, 0, 0, 95]) = None"
proof -
  let ?t = "tape_of [0, 0, 0, 0, 95]"
  let ?p = "example_product\<lparr>current_stock := 0, is_active := False\<rparr>"
  let ?pr = "prepare example_config 10 ?t"
  let ?st0 = "snd (snd (projr ?pr))"
  let ?sl = "sessions_loop s_session_id example_config [''user_000000''] [example_category] ?st0"
  have pr: "?pr = Inr ([example_category], [''user_000000''], ?st0)"
    by (rule Inr_triple_projr) code_simp
  have sl: "?sl = Some (Inr (projr (the ?sl)))"
    by (rule Some_Inr_projr) code_simp
  have st: "run_products (projr (the ?sl)) = [?p]" "tx_written (projr (the ?sl)) = 0"
    by code_simp+
  have a: "tx_written (projr (the ?sl)) < num_transactions example_config"
    unfolding st by (simp add: example_config_def)
  have c: "run_products (projr (the ?sl)) \<noteq> []"
    unfolding st by simp
  have d: "exhausted (run_products (projr (the ?sl)))"
    unfolding st by (simp add: exhausted_def)
  have "orphan_loop example_config [''user_000000''] (projr (the ?sl)) = None"
    by (rule orphan_loop_exhausted_None [OF a _ c d]) simp
  then have "(case ?sl of None \<Rightarrow> None | Some (Inl e) \<Rightarrow> Some (Inl e)
              | Some (Inr st1) \<Rightarrow> orphan_loop example_config [''user_000000''] st1) = None"
    by (subst sl) simp
  then show ?thesis
    unfolding main_def by (subst pr) simp
qed




text \<open>
  C2 (as the code has it): \<open>session_record\<close> gives a session the status \<open>Converted\<close> exactly
  when it returns a transaction for it, and that transaction carries the session's id and
  at least one line; \<open>iter_sessions_for_chunk\<close> writes the transaction only while fewer
  than \<open>num_transactions\<close> transactions have been written. So at every turn of the loops
  of a run, in the state in which the chunk loop ends (whether or not the orphan loop
  returns after it), and at the end of a run that ends normally, the transactions written
  that carry a session id are, in the order written, those of the first
  \<open>num_transactions\<close> sessions written as converted, one for each; a session converted
  after the target is reached is still written as converted, and its transaction is not
  written.
\<close>

theorem session_transactions_up_to_target:
  "(session_record user ps cats t0 = Inr (s, tx, ps', t1) \<longrightarrow>
      (s_conversion_status s = Converted \<longleftrightarrow> tx \<noteq> None) \<and>
      (\<forall>x. tx = Some x \<longrightarrow> tx_session_id x = Some (s_session_id s) \<and> tx_items x \<noteq> [])) \<and>
   (prepare args room t = Inr (categories, users, st0) \<and>
    run_reaches dumps args users categories st0 st \<longrightarrow>
      map tx_session_id (session_linked (transactions st)) =
        take (nat (num_transactions args)) (converted_ids (concat (session_files st)))) \<and>
   (prepare args room t = Inr (categories, users, st0) \<and>
    sessions_loop dumps args users categories st0 = Some (Inr st1) \<longrightarrow>
      map tx_session_id (session_linked (transactions st1)) =
        take (nat (num_transactions args)) (converted_ids (concat (session_files st1)))) \<and>
   (main dumps args room t = Some (Inr st2) \<longrightarrow>
      map tx_session_id (session_linked (transactions st2)) =
        take (nat (num_transactions args)) (converted_ids (concat (session_files st2))))"
proof -
  have linked: "map tx_session_id (session_linked (transactions st)) =
        take (nat (num_transactions args)) (converted_ids (concat (session_files st)))"
    if "prepare args room t = Inr (categories, users, st0)"
      and "run_reaches dumps args users categories st0 st"
    for categories users st0 st
    using that prepare_linked run_reaches_linked by blast
  have "session_record user ps cats t0 = Inr (s, tx, ps', t1) \<longrightarrow>
      (s_conversion_status s = Converted \<longleftrightarrow> tx \<noteq> None) \<and>
      (\<forall>x. tx = Some x \<longrightarrow> tx_session_id x = Some (s_session_id s) \<and> tx_items x \<noteq> [])"
    using session_record_status by blast
  moreover have "prepare args room t = Inr (categories, users, st0) \<and>
    sessions_loop dumps args users categories st0 = Some (Inr st1) \<longrightarrow>
      map tx_session_id (session_linked (transactions st1)) =
        take (nat (num_transactions args)) (converted_ids (concat (session_files st1)))"
    using linked sessions_loop_reaches by blast
  moreover have "main dumps args room t = Some (Inr st2) \<longrightarrow>
      map tx_session_id (session_linked (transactions st2)) =
        take (nat (num_transactions args)) (converted_ids (concat (session_files st2)))"
  proof
    assume "main dumps args room t = Some (Inr st2)"
    then show "map tx_session_id (session_linked (transactions st2)) =
        take (nat (num_transactions args)) (converted_ids (concat (session_files st2)))"
      by (rule main_reaches) (rule linked)
  qed
  ultimately show ?thesis using linked by blast
qed

theorem session_transactions_up_to_target_witness:
  "s_conversion_status (fst (projr
     (session_record ''user_000000'' [example_product] [example_category]
        (tape_of (replicate 15 0 @ [50, 0, 0, 2]))))) = Converted \<and>
   map_option tx_session_id (fst (snd (projr
     (session_record ''user_000000'' [example_product] [example_category]
        (tape_of (replicate 15 0 @ [50, 0, 0, 2]))))))
     = Some (Some ''sess_0000000000'') \<and>
   map tx_session_id (session_linked (transactions (projr (the
     (sessions_loop s_session_id (example_config\<lparr>num_sessions := 2\<rparr>)
        [''user_000000''] [example_category]
        (snd (snd (projr (prepare (example_config\<lparr>num_sessions := 2\<rparr>) 10
          (tape_of (replicate 21 0 @ [50] @ replicate 5 0 @ [1] @ replicate 14 0 @ [50])))))))))))
     = [Some ''sess_0000000000''] \<and>
   map tx_session_id (session_linked (transactions (projr (the
     (main s_session_id (example_config\<lparr>num_sessions := 2\<rparr>) 10
        (tape_of (replicate 21 0 @ [50] @ replicate 5 0 @ [1] @ replicate 14 0 @ [50])))))))
     = [Some ''sess_0000000000'']"
proof -
  let ?a = "example_config\<lparr>num_sessions := 2\<rparr>"
  let ?t = "tape_of (replicate 21 0 @ [50] @ replicate 5 0 @ [1] @ replicate 14 0 @ [50])"
  let ?r = "session_record ''user_000000'' [example_product] [example_category]
              (tape_of (replicate 15 0 @ [50, 0, 0, 2]))"
  let ?p = "prepare ?a 10 ?t"
  let ?st0 = "snd (snd (projr ?p))"
  let ?sl = "sessions_loop s_session_id ?a [''user_000000''] [example_category] ?st0"
  let ?m = "main s_session_id ?a 10 ?t"
  have isr: "isl ?r = False" by code_simp
  then have r: "?r = Inr (fst (projr ?r), fst (snd (projr ?r)), fst (snd (snd (projr ?r))),
                        snd (snd (snd (projr ?r))))"
    by (cases ?r) auto
  have tx: "map_option tx_session_id (fst (snd (projr ?r))) = Some (Some ''sess_0000000000'')"
    by code_simp
  have p: "?p = Inr ([example_category], [''user_000000''], ?st0)"
    by (rule Inr_triple_projr) code_simp
  have sl: "?sl = Some (Inr (projr (the ?sl)))"
    by (rule Some_Inr_projr) code_simp
  have m: "?m = Some (Inr (projr (the ?m)))"
    by (rule Some_Inr_projr) code_simp
  have c1: "converted_ids (concat (session_files (projr (the ?sl)))) =
             [Some ''sess_0000000000'', Some ''sess_1000000000'']"
    by code_simp
  have c2: "converted_ids (concat (session_files (projr (the ?m)))) =
             [Some ''sess_0000000000'', Some ''sess_1000000000'']"
    by code_simp
  have n: "nat (num_transactions ?a) = 1"
    by code_simp
  note inst = session_transactions_up_to_target
    [of "''user_000000''" "[example_product]" "[example_category]"
        "tape_of (replicate 15 0 @ [50, 0, 0, 2])"
        "fst (projr ?r)" "fst (snd (projr ?r))" "fst (snd (snd (projr ?r)))"
        "snd (snd (snd (projr ?r)))"
        ?a 10 ?t "[example_category]" "[''user_000000'']" ?st0
        s_session_id "projr (the ?sl)" "projr (the ?sl)" "projr (the ?m)"]
  from sessions_loop_reaches [OF sl] have
    rr: "run_reaches s_session_id ?a [''user_000000''] [example_category] ?st0
           (projr (the ?sl))" by simp
  from inst r tx have "s_conversion_status (fst (projr ?r)) = Converted"
    by (cases "fst (snd (projr ?r))") auto
  moreover from inst p rr have
    "map tx_session_id (session_linked (transactions (projr (the ?sl)))) =
       take (nat (num_transactions ?a)) (converted_ids (concat (session_files (projr (the ?sl)))))"
    by blast
  moreover from inst p sl have
    "map tx_session_id (session_linked (transactions (projr (the ?sl)))) =
       take (nat (num_transactions ?a)) (converted_ids (concat (session_files (projr (the ?sl)))))"
    by blast
  moreover from inst m have
    "map tx_session_id (session_linked (transactions (projr (the ?m)))) =
       take (nat (num_transactions ?a)) (converted_ids (concat (session_files (projr (the ?m)))))"
    by blast
  ultimately show ?thesis using tx c1 c2 n by simp
qed

text \<open>
  The claim of C2 as the specification states it fails: with a target of one transaction
  and two sessions that both convert, both sessions are written as converted and only the
  first has a transaction in the stream.
\<close>

theorem converted_without_transaction_counterexample:
  "map_option (map_sum id run_summary)
     (main s_session_id (example_config\<lparr>num_sessions := 2\<rparr>) 10
        (tape_of (replicate 21 0 @ [50] @ replicate 5 0 @ [1] @ replicate 14 0 @ [50]))) =
   Some (Inr ([(''sess_0000000000'', Converted), (''sess_1000000000'', Converted)],
              [Some ''sess_0000000000'']))"
  by code_simp

text \<open>
  C1: at every turn of the loops of a run, and at the end of a run that ends normally,
  the quantities on the lines of the transactions written so far (those of sessions and
  orphan ones alike) that name a product add up to no more than the stock that product
  has in the first \<^verbatim>\<open>products.json\<close>.
\<close>

theorem conservation:
  "(prepare args room t = Inr (categories, users, st0) \<and>
    run_reaches dumps args users categories st0 st \<longrightarrow>
      (\<forall>p \<in> set (products_initial st).
          committed_qty (product_id p) (transactions st) \<le> current_stock p)) \<and>
   (main dumps args room t = Some (Inr st') \<longrightarrow>
      (\<forall>p \<in> set (products_initial st').
          committed_qty (product_id p) (transactions st') \<le> current_stock p))"
proof -
  have bound: "\<forall>p \<in> set (products_initial st).
          committed_qty (product_id p) (transactions st) \<le> current_stock p"
    if p: "prepare args room t = Inr (categories, users, st0)"
      and r: "run_reaches dumps args users categories st0 st"
    for categories users st0 st
  proof -
    from prepare_conserved [OF p] have
      c: "conserved (products_initial st0) st0" and
      d: "distinct (map product_id (products_initial st0))" by simp_all
    from run_reaches_conserved [OF r c] have "conserved (products_initial st0) st" .
    from conserved_committed [OF this d] show ?thesis .
  qed
  have "main dumps args room t = Some (Inr st') \<longrightarrow>
      (\<forall>p \<in> set (products_initial st').
          committed_qty (product_id p) (transactions st') \<le> current_stock p)"
  proof
    assume "main dumps args room t = Some (Inr st')"
    then show "\<forall>p \<in> set (products_initial st').
          committed_qty (product_id p) (transactions st') \<le> current_stock p"
      by (rule main_reaches) (rule bound)
  qed
  with bound show ?thesis by blast
qed

theorem conservation_witness:
  "products_initial (projr (the (main s_session_id example_config 10
       (tape_of (replicate 21 0 @ [50, 0, 0, 2]))))) = [example_product] \<and>
   committed_qty ''prod_00000'' (transactions (projr (the (main s_session_id example_config 10
       (tape_of (replicate 21 0 @ [50, 0, 0, 2])))))) = 3 \<and>
   products_initial (projr (the (sessions_loop s_session_id example_config
       [''user_000000''] [example_category]
       (snd (snd (projr (prepare example_config 10
          (tape_of (replicate 21 0 @ [50, 0, 0, 2])))))))))
     = [example_product] \<and>
   committed_qty ''prod_00000'' (transactions (projr (the (sessions_loop s_session_id
       example_config [''user_000000''] [example_category]
       (snd (snd (projr (prepare example_config 10
          (tape_of (replicate 21 0 @ [50, 0, 0, 2]))))))))))
     = 3 \<and>
   (3::int) \<le> current_stock example_product"
proof -
  let ?t = "tape_of (replicate 21 0 @ [50, 0, 0, 2])"
  let ?m = "main s_session_id example_config 10 ?t"
  let ?p = "prepare example_config 10 ?t"
  let ?st0 = "snd (snd (projr ?p))"
  let ?sl = "sessions_loop s_session_id example_config [''user_000000''] [example_category] ?st0"
  have m: "?m = Some (Inr (projr (the ?m)))"
    by (rule Some_Inr_projr) code_simp
  have p: "?p = Inr ([example_category], [''user_000000''], ?st0)"
    by (rule Inr_triple_projr) code_simp
  have sl: "?sl = Some (Inr (projr (the ?sl)))"
    by (rule Some_Inr_projr) code_simp
  from sessions_loop_reaches [OF sl] have
    r: "run_reaches s_session_id example_config [''user_000000''] [example_category] ?st0
          (projr (the ?sl))" by simp
  have pm: "products_initial (projr (the ?m)) = [example_product]"
    by code_simp
  have qm: "committed_qty ''prod_00000'' (transactions (projr (the ?m))) = 3"
    by code_simp
  have ps: "products_initial (projr (the ?sl)) = [example_product]"
    by code_simp
  have qs: "committed_qty ''prod_00000'' (transactions (projr (the ?sl))) = 3"
    by code_simp
  note inst = conservation [of example_config 10 ?t "[example_category]" "[''user_000000'']"
      ?st0 s_session_id "projr (the ?sl)" "projr (the ?m)"]
  from inst p r have
    "\<forall>p \<in> set (products_initial (projr (the ?sl))).
       committed_qty (product_id p) (transactions (projr (the ?sl))) \<le> current_stock p"
    by blast
  with ps have "committed_qty (product_id example_product) (transactions (projr (the ?sl)))
                  \<le> current_stock example_product" by simp
  moreover have "product_id example_product = ''prod_00000''"
    by (simp add: example_product_def)
  moreover from inst m have
    "\<forall>p \<in> set (products_initial (projr (the ?m))).
       committed_qty (product_id p) (transactions (projr (the ?m))) \<le> current_stock p"
    by blast
  ultimately show ?thesis using pm qm ps qs by simp
qed

text \<open>
  C5: let \<open>st\<close> be a state of a run at a turn of its loops. A product whose stock is 0
  in \<open>st\<close> is inactive in \<open>st\<close>, and a product that is inactive in \<open>st\<close> is inactive in
  every state \<open>st'\<close> that the run is in later. The turns change the heap only by calls
  of \<open>reserve\<close>, and so do \<open>session_record\<close> and \<open>gen_orphan_transaction\<close> on any heap;
  the same holds between these calls: in every heap \<open>ps\<close> that calls of \<open>reserve\<close> lead to
  from the heap of \<open>st\<close>, a product whose stock is 0 is inactive, and a product inactive
  in \<open>ps\<close> is inactive in every heap \<open>ps'\<close> that further calls lead to. Nothing sets
  \<open>is_active\<close> back to true.
\<close>

theorem deactivation:
  assumes "prepare args room t = Inr (categories, users, st0)"
    and "run_reaches dumps args users categories st0 st"
    and "i < length (run_products st)"
  shows "(current_stock (run_products st ! i) = 0 \<longrightarrow> \<not> is_active (run_products st ! i)) \<and>
         (\<forall>st'. run_reaches dumps args users categories st st' \<longrightarrow>
                reserve_steps (run_products st) (run_products st') \<and>
                (\<not> is_active (run_products st ! i) \<longrightarrow> \<not> is_active (run_products st' ! i))) \<and>
         (\<forall>user ps ps1 t1 s tx t2.
            session_record user ps categories t1 = Inr (s, tx, ps1, t2) \<longrightarrow>
              reserve_steps ps ps1) \<and>
         (\<forall>user ps ps1 t1 tx t2.
            gen_orphan_transaction user ps t1 = Inr (tx, ps1, t2) \<longrightarrow>
              reserve_steps ps ps1) \<and>
         (\<forall>ps ps'. reserve_steps (run_products st) ps \<and> reserve_steps ps ps' \<longrightarrow>
            (current_stock (ps ! i) = 0 \<longrightarrow> \<not> is_active (ps ! i)) \<and>
            (\<not> is_active (ps ! i) \<longrightarrow> \<not> is_active (ps' ! i)))"
proof -
  from prepare_deactivated [OF assms(1)] have "deactivated (run_products st0)" .
  with run_reaches_steps [OF assms(2)] have d: "deactivated (run_products st)"
    by (rule reserve_steps_deactivated)
  have zero: "current_stock (ps ! i) = 0 \<longrightarrow> \<not> is_active (ps ! i)"
    if "reserve_steps (run_products st) ps" for ps
  proof -
    from that d have "deactivated ps" by (rule reserve_steps_deactivated)
    moreover from that assms(3) have "i < length ps" by (simp add: reserve_steps_length)
    ultimately show ?thesis by (simp add: deactivated_def)
  qed
  have stays: "\<not> is_active (ps ! i) \<longrightarrow> \<not> is_active (ps' ! i)"
    if "reserve_steps (run_products st) ps" "reserve_steps ps ps'" for ps ps'
  proof -
    from that(1) assms(3) have "i < length ps" by (simp add: reserve_steps_length)
    from reserve_steps_inactive [OF that(2) this] show ?thesis by simp
  qed
  have later: "reserve_steps (run_products st) (run_products st') \<and>
               (\<not> is_active (run_products st ! i) \<longrightarrow> \<not> is_active (run_products st' ! i))"
    if "run_reaches dumps args users categories st st'" for st'
    using run_reaches_steps [OF that] stays [OF no_step] by simp
  from zero [OF no_step] later zero stays session_record_steps gen_orphan_steps
  show ?thesis by blast
qed

theorem deactivation_witness:
  "current_stock (run_products (snd (snd (projr
      (prepare example_config 10 (tape_of [0, 0, 0, 0, 95]))))) ! 0) = 0 \<and>
   \<not> is_active (run_products (snd (snd (projr
      (prepare example_config 10 (tape_of [0, 0, 0, 0, 95]))))) ! 0) \<and>
   \<not> is_active (run_products (projr (the
      (sessions_loop s_session_id example_config [''user_000000''] [example_category]
         (snd (snd (projr (prepare example_config 10 (tape_of [0, 0, 0, 0, 95])))))))) ! 0) \<and>
   run_products (snd (snd (projr (prepare example_config 10 (tape_of []))))) =
     [example_product] \<and>
   current_stock (snd (reserve [example_product] ''prod_00000'' 10) ! 0) = 0 \<and>
   \<not> is_active (snd (reserve [example_product] ''prod_00000'' 10) ! 0) \<and>
   \<not> is_active (snd (reserve (snd (reserve [example_product] ''prod_00000'' 10))
                         ''prod_00000'' 0) ! 0) \<and>
   reserve_steps [example_product] [example_product\<lparr>current_stock := 7\<rparr>] \<and>
   reserve_steps [example_product] [example_product\<lparr>current_stock := 9\<rparr>]"
proof -
  let ?pa = "prepare example_config 10 (tape_of [0, 0, 0, 0, 95])"
  let ?sr = "session_record ''user_000000'' [example_product] [example_category]
               (tape_of (replicate 15 0 @ [50, 0, 0, 2]))"
  let ?go = "gen_orphan_transaction ''user_000000'' [example_product] (tape_of [])"
  let ?a0 = "snd (snd (projr ?pa))"
  let ?sl = "sessions_loop s_session_id example_config [''user_000000''] [example_category] ?a0"
  let ?pb = "prepare example_config 10 (tape_of [])"
  let ?b0 = "snd (snd (projr ?pb))"
  let ?ps = "snd (reserve [example_product] ''prod_00000'' 10)"
  let ?ps' = "snd (reserve ?ps ''prod_00000'' 0)"
  have pa: "?pa = Inr ([example_category], [''user_000000''], ?a0)"
    by (rule Inr_triple_projr) code_simp
  have sl: "?sl = Some (Inr (projr (the ?sl)))"
    by (rule Some_Inr_projr) code_simp
  from sessions_loop_reaches [OF sl] have
    ra: "run_reaches s_session_id example_config [''user_000000''] [example_category] ?a0
           (projr (the ?sl))" by simp
  have a0: "run_products ?a0 = [example_product\<lparr>current_stock := 0, is_active := False\<rparr>]"
    by code_simp
  then have la: "0 < length (run_products ?a0)" by simp
  note ia = deactivation [OF pa here la]
  from ia a0 have "\<not> is_active (run_products ?a0 ! 0)" by simp
  moreover from ia ra this have "\<not> is_active (run_products (projr (the ?sl)) ! 0)" by blast
  moreover from a0 have "current_stock (run_products ?a0 ! 0) = 0" by simp
  moreover
  have pb: "?pb = Inr ([example_category], [''user_000000''], ?b0)"
    by (rule Inr_triple_projr) code_simp
  have b0: "run_products ?b0 = [example_product]"
    by code_simp
  then have lb: "0 < length (run_products ?b0)" by simp
  have s1: "reserve_steps (run_products ?b0) ?ps"
    unfolding b0 by (intro reserve_steps.intros)
  have s2: "reserve_steps ?ps ?ps'"
    by (intro reserve_steps.intros)
  have z: "current_stock (?ps ! 0) = 0"
    by code_simp
  note ib = deactivation [OF pb here lb, of s_session_id]
  from ib s1 s2 z have "\<not> is_active (?ps ! 0) \<and> \<not> is_active (?ps' ! 0)"
    by blast
  moreover
  have "isl ?sr = False" by code_simp
  then have sr: "?sr = Inr (fst (projr ?sr), fst (snd (projr ?sr)), fst (snd (snd (projr ?sr))),
                           snd (snd (snd (projr ?sr))))"
    by (cases ?sr) auto
  have sr1: "fst (snd (snd (projr ?sr))) = [example_product\<lparr>current_stock := 7\<rparr>]"
    by code_simp
  from ib sr have "reserve_steps [example_product] (fst (snd (snd (projr ?sr))))"
    by blast
  with sr1 have "reserve_steps [example_product] [example_product\<lparr>current_stock := 7\<rparr>]"
    by simp
  moreover
  have "isl ?go = False" by code_simp
  then have go: "?go = Inr (fst (projr ?go), fst (snd (projr ?go)), snd (snd (projr ?go)))"
    by (cases ?go) auto
  have go1: "fst (snd (projr ?go)) = [example_product\<lparr>current_stock := 9\<rparr>]"
    by code_simp
  from ib go have "reserve_steps [example_product] (fst (snd (projr ?go)))"
    by blast
  with go1 have "reserve_steps [example_product] [example_product\<lparr>current_stock := 9\<rparr>]"
    by simp
  ultimately show ?thesis using b0 z by simp
qed

end
